theory Spec2Isabelle
  imports Main
begin

section \<open>The Enigma machine simulator of \<^verbatim>\<open>src/main.cpp\<close>\<close>

text \<open>
  A shallow embedding of the signal-path engine: the alphabet utilities, the
  component base class, rotors, the reflector, the plugboard and the machine with
  its stepping procedure.  C++ \<^verbatim>\<open>int\<close> values are modelled as \<open>int\<close>: every
  arithmetic expression of the engine stays far inside the 32-bit range, because
  positions, ring settings and signals are reduced with \<^verbatim>\<open>% 26\<close> before they are
  combined.  A \<^verbatim>\<open>char\<close> is a HOL \<open>char\<close>, read through its code \<open>of_char c\<close> in
  \<open>0..255\<close>.  Characters outside ASCII, for which \<^verbatim>\<open>std::toupper\<close> and
  \<^verbatim>\<open>std::isalpha\<close> are undefined where \<^verbatim>\<open>char\<close> is signed, are treated as characters
  that are not letters.
\<close>

subsection \<open>Errors\<close>

text \<open>
  \<open>InvalidArgument\<close> is a thrown \<^verbatim>\<open>std::invalid_argument\<close> with its message.
  \<open>OutOfBounds\<close> marks an access \<^verbatim>\<open>s[i]\<close> or \<^verbatim>\<open>v[i]\<close> outside the container, which
  C++ leaves undefined (nothing is thrown there).
\<close>

datatype error = InvalidArgument string | OutOfBounds

text \<open>
  Reading \<^verbatim>\<open>s[i]\<close> from a \<^verbatim>\<open>std::string\<close>: the character at \<open>i\<close>, the null character
  at \<open>i = s.size()\<close>, and undefined anywhere else.
\<close>

definition string_at :: "string \<Rightarrow> int \<Rightarrow> error + char" where
  "string_at s i =
     (if 0 \<le> i \<and> i < int (length s) then Inr (s ! nat i)
      else if i = int (length s) then Inr (char_of (0::int))
      else Inl OutOfBounds)"

subsection \<open>C library and language primitives\<close>

text \<open>The C++ remainder \<^verbatim>\<open>a % b\<close> truncates towards zero: its sign is the sign of \<open>a\<close>.\<close>

definition c_rem :: "int \<Rightarrow> int \<Rightarrow> int" where
  "c_rem a b = sgn a * (\<bar>a\<bar> mod \<bar>b\<bar>)"

text \<open>\<^verbatim>\<open>std::toupper\<close> and \<^verbatim>\<open>std::isalpha\<close> in the default "C" locale.\<close>

definition toupper :: "char \<Rightarrow> char" where
  "toupper c = (if 97 \<le> (of_char c :: int) \<and> (of_char c :: int) \<le> 122
                then char_of ((of_char c :: int) - 32) else c)"

definition isalpha :: "char \<Rightarrow> bool" where
  "isalpha c = ((65 \<le> (of_char c :: int) \<and> (of_char c :: int) \<le> 90) \<or>
                (97 \<le> (of_char c :: int) \<and> (of_char c :: int) \<le> 122))"

text \<open>The 26 letters of the machine's alphabet, \<open>A\<close> to \<open>Z\<close>.\<close>

definition isupper :: "char \<Rightarrow> bool" where
  "isupper c = (65 \<le> (of_char c :: int) \<and> (of_char c :: int) \<le> 90)"

subsection \<open>Alphabet utilities\<close>

definition ALPHABET_SIZE :: int where
  "ALPHABET_SIZE = 26"

definition FIRST_LETTER :: char where
  "FIRST_LETTER = CHR ''A''"

definition charToIndex :: "char \<Rightarrow> int" where
  "charToIndex c = of_char (toupper c) - of_char FIRST_LETTER"

definition indexToChar :: "int \<Rightarrow> char" where
  "indexToChar index = char_of (of_char FIRST_LETTER + c_rem index ALPHABET_SIZE)"

subsection \<open>The component base class\<close>

record EnigmaComponent =
  wiring :: string
  name :: string
  position :: int
  ringSetting :: int

definition EnigmaComponent_new :: "string \<Rightarrow> string \<Rightarrow> error + EnigmaComponent" where
  "EnigmaComponent_new w n =
     (if int (length w) \<noteq> ALPHABET_SIZE
      then Inl (InvalidArgument ''Wiring must be exactly 26 characters'')
      else Inr \<lparr>wiring = w, name = n, position = 0, ringSetting = 0\<rparr>)"

definition setPosition :: "'a EnigmaComponent_scheme \<Rightarrow> int \<Rightarrow> 'a EnigmaComponent_scheme" where
  "setPosition c pos = c\<lparr>position := c_rem pos ALPHABET_SIZE\<rparr>"

definition setRingSetting :: "'a EnigmaComponent_scheme \<Rightarrow> int \<Rightarrow> 'a EnigmaComponent_scheme" where
  "setRingSetting c setting = c\<lparr>ringSetting := c_rem setting ALPHABET_SIZE\<rparr>"

definition getPosition :: "'a EnigmaComponent_scheme \<Rightarrow> int" where
  "getPosition c = position c"

definition rotate_c :: "'a EnigmaComponent_scheme \<Rightarrow> 'a EnigmaComponent_scheme" where
  "rotate_c c = c\<lparr>position := c_rem (position c + 1) ALPHABET_SIZE\<rparr>"

definition applyOffset :: "'a EnigmaComponent_scheme \<Rightarrow> int \<Rightarrow> bool \<Rightarrow> int" where
  "applyOffset c signal forward =
     (let offset0 = position c - ringSetting c;
          offset = (if offset0 < 0 then offset0 + ALPHABET_SIZE else offset0)
      in if forward then c_rem (signal + offset) ALPHABET_SIZE
         else c_rem (signal - offset + ALPHABET_SIZE) ALPHABET_SIZE)"

subsection \<open>Rotor\<close>

record Rotor = EnigmaComponent +
  reverseWiring :: string
  notchPosition :: int

text \<open>
  The loop of \<^verbatim>\<open>buildReverseWiring\<close>, from index \<open>i\<close> with the reverse wiring built
  so far.  A wiring character that is not a letter has an index outside \<open>0..25\<close>,
  and the write \<^verbatim>\<open>reverseWiring[outputIndex]\<close> is then out of bounds.
\<close>

function buildReverseWiring_loop :: "string \<Rightarrow> int \<Rightarrow> string \<Rightarrow> error + string" where
  "buildReverseWiring_loop w i rw =
     (if i < ALPHABET_SIZE then
        (case string_at w i of
           Inl e \<Rightarrow> Inl e
         | Inr output \<Rightarrow>
             (let outputIndex = charToIndex output in
              if 0 \<le> outputIndex \<and> outputIndex < int (length rw)
              then buildReverseWiring_loop w (i + 1) (rw[nat outputIndex := indexToChar i])
              else Inl OutOfBounds))
      else Inr rw)"
  by pat_completeness auto
termination
  by (relation "measure (\<lambda>(w, i, rw). nat (ALPHABET_SIZE - i))") auto

definition buildReverseWiring :: "string \<Rightarrow> error + string" where
  "buildReverseWiring w =
     buildReverseWiring_loop w 0 (replicate (nat ALPHABET_SIZE) (char_of (0::int)))"

definition Rotor_new :: "string \<Rightarrow> int \<Rightarrow> string \<Rightarrow> error + Rotor" where
  "Rotor_new w notch n =
     (case EnigmaComponent_new w n of
        Inl e \<Rightarrow> Inl e
      | Inr c \<Rightarrow>
          (case buildReverseWiring (wiring c) of
             Inl e \<Rightarrow> Inl e
           | Inr rw \<Rightarrow>
               Inr \<lparr>wiring = wiring c, name = name c, position = position c,
                    ringSetting = ringSetting c, reverseWiring = rw, notchPosition = notch\<rparr>))"

definition Rotor_process :: "Rotor \<Rightarrow> char \<Rightarrow> bool \<Rightarrow> error + char" where
  "Rotor_process r input forward =
     (let signal = applyOffset r (charToIndex input) forward in
      case string_at (if forward then wiring r else reverseWiring r) signal of
        Inl e \<Rightarrow> Inl e
      | Inr outputChar \<Rightarrow>
          Inr (indexToChar (applyOffset r (charToIndex outputChar) (\<not> forward))))"

definition isAtNotch :: "Rotor \<Rightarrow> bool" where
  "isAtNotch r = (position r = notchPosition r)"

definition setNotch :: "Rotor \<Rightarrow> int \<Rightarrow> Rotor" where
  "setNotch r notch = r\<lparr>notchPosition := c_rem notch ALPHABET_SIZE\<rparr>"

subsection \<open>Reflector\<close>

type_synonym Reflector = EnigmaComponent

definition Reflector_new :: "string \<Rightarrow> string \<Rightarrow> error + Reflector" where
  "Reflector_new w n = EnigmaComponent_new w n"

definition Reflector_process :: "Reflector \<Rightarrow> char \<Rightarrow> error + char" where
  "Reflector_process c input = string_at (wiring c) (charToIndex input)"

subsection \<open>Plugboard\<close>

record Plugboard =
  connections :: "char \<rightharpoonup> char"

definition Plugboard_new :: Plugboard where
  "Plugboard_new = \<lparr>connections = Map.empty\<rparr>"

text \<open>
  \<^verbatim>\<open>connect\<close> returns the thrown exception, if any, together with the plugboard as
  the call leaves it.
\<close>

definition connect :: "Plugboard \<Rightarrow> char \<Rightarrow> char \<Rightarrow> error option \<times> Plugboard" where
  "connect pb a0 b0 =
     (let a = toupper a0; b = toupper b0 in
      if connections pb a \<noteq> None \<or> connections pb b \<noteq> None
      then (Some (InvalidArgument ''One or both letters are already connected''), pb)
      else (None, pb\<lparr>connections := ((connections pb)(a \<mapsto> b))(b \<mapsto> a)\<rparr>))"

definition clearConnections :: "Plugboard \<Rightarrow> Plugboard" where
  "clearConnections pb = pb\<lparr>connections := Map.empty\<rparr>"

text \<open>
  \<^verbatim>\<open>Plugboard::process\<close> is not a \<^verbatim>\<open>const\<close> method: it returns its result together
  with the plugboard as the call leaves it.
\<close>

definition Plugboard_process :: "Plugboard \<Rightarrow> char \<Rightarrow> char \<times> Plugboard" where
  "Plugboard_process pb input0 =
     (let input = toupper input0 in
      case connections pb input of
        Some paired \<Rightarrow> (paired, pb)
      | None \<Rightarrow> (input, pb))"

subsection \<open>The machine\<close>

record EnigmaMachine =
  rotors :: "Rotor list"
  reflector :: Reflector
  plugboard :: Plugboard

definition EnigmaMachine_new :: "Rotor list \<Rightarrow> Reflector \<Rightarrow> error + EnigmaMachine" where
  "EnigmaMachine_new rs rf =
     (if length rs \<noteq> 3
      then Inl (InvalidArgument ''Enigma machine requires exactly 3 rotors'')
      else Inr \<lparr>rotors = rs, reflector = rf, plugboard = Plugboard_new\<rparr>)"

definition rotateRotors :: "EnigmaMachine \<Rightarrow> error + EnigmaMachine" where
  "rotateRotors m =
     (let rs = rotors m in
      if length rs < 3 then Inl OutOfBounds
      else
        let rs1 = rs[2 := rotate_c (rs ! 2)];
            rotateMiddle = isAtNotch (rs1 ! 2);
            rotateLeft = isAtNotch (rs1 ! 1);
            rs2 = (if rotateMiddle
                   then (let t = rs1[1 := rotate_c (rs1 ! 1)] in t[0 := rotate_c (t ! 0)])
                   else rs1);
            rs3 = (if rotateLeft then rs2[0 := rotate_c (rs2 ! 0)] else rs2)
        in Inr (m\<lparr>rotors := rs3\<rparr>))"

text \<open>One pass of a character through a sequence of rotors, in the list's order.\<close>

fun rotor_pass :: "Rotor list \<Rightarrow> bool \<Rightarrow> char \<Rightarrow> error + char" where
  "rotor_pass [] forward result = Inr result"
| "rotor_pass (r # rs) forward result =
     (case Rotor_process r result forward of
        Inl e \<Rightarrow> Inl e
      | Inr result' \<Rightarrow> rotor_pass rs forward result')"

definition encryptChar :: "EnigmaMachine \<Rightarrow> char \<Rightarrow> error + char \<times> EnigmaMachine" where
  "encryptChar m input =
     (case rotateRotors m of
        Inl e \<Rightarrow> Inl e
      | Inr m1 \<Rightarrow>
          (let (result1, pb1) = Plugboard_process (plugboard m1) input in
           case rotor_pass (rev (rotors m1)) True result1 of
             Inl e \<Rightarrow> Inl e
           | Inr result2 \<Rightarrow>
               (case Reflector_process (reflector m1) result2 of
                  Inl e \<Rightarrow> Inl e
                | Inr result3 \<Rightarrow>
                    (case rotor_pass (rotors m1) False result3 of
                       Inl e \<Rightarrow> Inl e
                     | Inr result4 \<Rightarrow>
                         (let (result5, pb2) = Plugboard_process pb1 result4 in
                          Inr (result5, m1\<lparr>plugboard := pb2\<rparr>))))))"

text \<open>The loop of \<^verbatim>\<open>encrypt\<close> over the rest of the message, with the result so far.\<close>

fun encrypt_loop :: "EnigmaMachine \<Rightarrow> string \<Rightarrow> string \<Rightarrow> error + string \<times> EnigmaMachine" where
  "encrypt_loop m [] result = Inr (result, m)"
| "encrypt_loop m (c # cs) result =
     (if isalpha c then
        (case encryptChar m c of
           Inl e \<Rightarrow> Inl e
         | Inr (r, m') \<Rightarrow> encrypt_loop m' cs (result @ [r]))
      else encrypt_loop m cs (result @ [c]))"

definition encrypt :: "EnigmaMachine \<Rightarrow> string \<Rightarrow> error + string \<times> EnigmaMachine" where
  "encrypt m message = encrypt_loop m message []"

definition setRotorPositions :: "EnigmaMachine \<Rightarrow> int \<Rightarrow> int \<Rightarrow> int \<Rightarrow> error + EnigmaMachine" where
  "setRotorPositions m left middle right =
     (let rs = rotors m in
      if length rs < 3 then Inl OutOfBounds
      else
        let rs1 = rs[0 := setPosition (rs ! 0) left];
            rs2 = rs1[1 := setPosition (rs1 ! 1) middle];
            rs3 = rs2[2 := setPosition (rs2 ! 2) right]
        in Inr (m\<lparr>rotors := rs3\<rparr>))"

definition setRingSettings :: "EnigmaMachine \<Rightarrow> int \<Rightarrow> int \<Rightarrow> int \<Rightarrow> error + EnigmaMachine" where
  "setRingSettings m left middle right =
     (let rs = rotors m in
      if length rs < 3 then Inl OutOfBounds
      else
        let rs1 = rs[0 := setRingSetting (rs ! 0) left];
            rs2 = rs1[1 := setRingSetting (rs1 ! 1) middle];
            rs3 = rs2[2 := setRingSetting (rs2 ! 2) right]
        in Inr (m\<lparr>rotors := rs3\<rparr>))"

text \<open>The loop of \<^verbatim>\<open>setPlugboardConnections\<close>: it stops at the first exception.\<close>

fun connect_all :: "Plugboard \<Rightarrow> (char \<times> char) list \<Rightarrow> error option \<times> Plugboard" where
  "connect_all pb [] = (None, pb)"
| "connect_all pb ((a, b) # cs) =
     (case connect pb a b of
        (Some e, pb') \<Rightarrow> (Some e, pb')
      | (None, pb') \<Rightarrow> connect_all pb' cs)"

definition setPlugboardConnections ::
  "EnigmaMachine \<Rightarrow> (char \<times> char) list \<Rightarrow> error option \<times> EnigmaMachine" where
  "setPlugboardConnections m cs =
     (let (e, pb) = connect_all (clearConnections (plugboard m)) cs
      in (e, m\<lparr>plugboard := pb\<rparr>))"

subsection \<open>The factory and the machines of \<^verbatim>\<open>main\<close>\<close>

definition createRotorI :: "int \<Rightarrow> int \<Rightarrow> error + Rotor" where
  "createRotorI pos ring =
     (case Rotor_new ''EKMFLGDQVZNTOWYHXUSPAIBRCJ'' 16 ''Rotor I'' of
        Inl e \<Rightarrow> Inl e
      | Inr rotor \<Rightarrow> Inr (setRingSetting (setPosition rotor pos) ring))"

definition createRotorII :: "int \<Rightarrow> int \<Rightarrow> error + Rotor" where
  "createRotorII pos ring =
     (case Rotor_new ''AJDKSIRUXBLHWTMCQGZNPYFVOE'' 4 ''Rotor II'' of
        Inl e \<Rightarrow> Inl e
      | Inr rotor \<Rightarrow> Inr (setRingSetting (setPosition rotor pos) ring))"

definition createRotorIII :: "int \<Rightarrow> int \<Rightarrow> error + Rotor" where
  "createRotorIII pos ring =
     (case Rotor_new ''BDFHJLCPRTXVZNYEIWGAKMUSQO'' 21 ''Rotor III'' of
        Inl e \<Rightarrow> Inl e
      | Inr rotor \<Rightarrow> Inr (setRingSetting (setPosition rotor pos) ring))"

definition createReflectorB :: "error + Reflector" where
  "createReflectorB = Reflector_new ''YRUHQSLDPXNGOKMIEBFZCWVJAT'' ''Reflector B''"

text \<open>
  The three rotors as \<^verbatim>\<open>createRotorI(0, 0)\<close>, \<^verbatim>\<open>createRotorII(0, 0)\<close> and
  \<^verbatim>\<open>createRotorIII(0, 0)\<close> return them, and reflector B, written out.
\<close>

definition rotorI :: Rotor where
  "rotorI = \<lparr>wiring = ''EKMFLGDQVZNTOWYHXUSPAIBRCJ'', name = ''Rotor I'', position = 0,
             ringSetting = 0, reverseWiring = ''UWYGADFPVZBECKMTHXSLRINQOJ'',
             notchPosition = 16\<rparr>"

definition rotorII :: Rotor where
  "rotorII = \<lparr>wiring = ''AJDKSIRUXBLHWTMCQGZNPYFVOE'', name = ''Rotor II'', position = 0,
              ringSetting = 0, reverseWiring = ''AJPCZWRLFBDKOTYUQGENHXMIVS'',
              notchPosition = 4\<rparr>"

definition rotorIII :: Rotor where
  "rotorIII = \<lparr>wiring = ''BDFHJLCPRTXVZNYEIWGAKMUSQO'', name = ''Rotor III'', position = 0,
               ringSetting = 0, reverseWiring = ''TAGBPCSDQEUFVNZHYIXJWLRKOM'',
               notchPosition = 21\<rparr>"

definition reflectorB :: Reflector where
  "reflectorB = \<lparr>wiring = ''YRUHQSLDPXNGOKMIEBFZCWVJAT'', name = ''Reflector B'',
                 position = 0, ringSetting = 0\<rparr>"

text \<open>A reflector whose wiring is 26 spaces, as \<^verbatim>\<open>Reflector(std::string(26, ' '), "Blank")\<close>.\<close>

definition blank_reflector :: Reflector where
  "blank_reflector = \<lparr>wiring = ''                          '', name = ''Blank'',
                      position = 0, ringSetting = 0\<rparr>"

text \<open>
  The first machine of \<^verbatim>\<open>main\<close>, rotors I, II, III and reflector B with an empty
  plugboard, with its rotors at the given positions.
\<close>

definition enigma_at :: "int \<Rightarrow> int \<Rightarrow> int \<Rightarrow> EnigmaMachine" where
  "enigma_at left middle right =
     \<lparr>rotors = [rotorI\<lparr>position := left\<rparr>, rotorII\<lparr>position := middle\<rparr>,
                 rotorIII\<lparr>position := right\<rparr>],
      reflector = reflectorB, plugboard = Plugboard_new\<rparr>"

subsection \<open>Valid configurations\<close>

text \<open>
  A wiring permutation: 26 letters, each letter of the alphabet once (in either
  case, since \<open>charToIndex\<close> folds the case).
\<close>

definition valid_wiring :: "string \<Rightarrow> bool" where
  "valid_wiring w = (length w = 26 \<and> list_all isalpha w \<and> distinct (map charToIndex w))"

text \<open>
  A rotor as the constructor and the setters leave it: a wiring permutation, the
  reverse wiring that \<open>buildReverseWiring\<close> computes from it, and position and
  ring setting in \<open>0..25\<close>.
\<close>

definition valid_rotor :: "Rotor \<Rightarrow> bool" where
  "valid_rotor r =
     (valid_wiring (wiring r) \<and> buildReverseWiring (wiring r) = Inr (reverseWiring r) \<and>
      0 \<le> position r \<and> position r < 26 \<and> 0 \<le> ringSetting r \<and> ringSetting r < 26)"

text \<open>A plugboard over the alphabet: every entry pairs two letters, in both directions.\<close>

definition valid_plugboard :: "Plugboard \<Rightarrow> bool" where
  "valid_plugboard pb =
     (\<forall>k v. connections pb k = Some v \<longrightarrow> isupper k \<and> isupper v \<and> connections pb v = Some k)"

definition valid_machine :: "EnigmaMachine \<Rightarrow> bool" where
  "valid_machine m =
     (length (rotors m) = 3 \<and> list_all valid_rotor (rotors m) \<and>
      valid_wiring (wiring (reflector m)) \<and> valid_plugboard (plugboard m))"

text \<open>The stepping procedure run \<open>n\<close> times in a row.\<close>

fun rotateRotors_times :: "nat \<Rightarrow> EnigmaMachine \<Rightarrow> error + EnigmaMachine" where
  "rotateRotors_times 0 m = Inr m"
| "rotateRotors_times (Suc n) m =
     (case rotateRotors m of Inl e \<Rightarrow> Inl e | Inr m' \<Rightarrow> rotateRotors_times n m')"

text \<open>
  A sequence of calls on a plugboard; the result is \<open>None\<close> when one of the
  \<^verbatim>\<open>connect\<close> calls throws.
\<close>

datatype plugboard_call = Connect char char | ClearConnections

fun plugboard_calls :: "Plugboard \<Rightarrow> plugboard_call list \<Rightarrow> Plugboard option" where
  "plugboard_calls pb [] = Some pb"
| "plugboard_calls pb (Connect a b # cs) =
     (case connect pb a b of
        (Some e, pb') \<Rightarrow> None
      | (None, pb') \<Rightarrow> plugboard_calls pb' cs)"
| "plugboard_calls pb (ClearConnections # cs) = plugboard_calls (clearConnections pb) cs"

text \<open>The invariant of the connections map: entries come in symmetric pairs, and every
  key is in upper-case form.\<close>

definition symmetric_connections :: "Plugboard \<Rightarrow> bool" where
  "symmetric_connections pb =
     (\<forall>k v. connections pb k = Some v \<longrightarrow> connections pb v = Some k \<and> toupper k = k)"

text \<open>
  A stage of the signal path that is defined on every letter, returns a letter,
  and sends different letters of the alphabet to different letters (letters are
  compared by their index, which ignores the case).
\<close>

definition letter_stage :: "(char \<Rightarrow> error + char) \<Rightarrow> bool" where
  "letter_stage f =
     ((\<forall>c. isalpha c \<longrightarrow> (\<exists>d. f c = Inr d \<and> isalpha d)) \<and>
      (\<forall>c1 c2 d1 d2. isalpha c1 \<and> isalpha c2 \<and> f c1 = Inr d1 \<and> f c2 = Inr d2 \<and>
          charToIndex d1 = charToIndex d2 \<longrightarrow> charToIndex c1 = charToIndex c2))"

text \<open>One stage after another; an error of the first stage ends the path.\<close>

definition then_stage ::
  "(char \<Rightarrow> error + char) \<Rightarrow> (char \<Rightarrow> error + char) \<Rightarrow> char \<Rightarrow> error + char" where
  "then_stage f g c = (case f c of Inl e \<Rightarrow> Inl e | Inr d \<Rightarrow> g d)"

text \<open>A stage whose output on a letter is an upper-case letter.\<close>

definition upper_output :: "(char \<Rightarrow> error + char) \<Rightarrow> bool" where
  "upper_output g = (\<forall>c d. isalpha c \<and> g c = Inr d \<longrightarrow> isupper d)"

section \<open>Alphabet utilities\<close>

lemma c_rem_nonneg: "0 \<le> a \<Longrightarrow> c_rem a 26 = a mod 26"
  by (cases "a = 0") (simp_all add: c_rem_def)

lemma c_rem_neg: "a < 0 \<Longrightarrow> c_rem a 26 = - ((- a) mod 26)"
  by (simp add: c_rem_def)

lemma char_code_bounds: "0 \<le> (of_char c :: int) \<and> (of_char c :: int) < 256"
proof -
  have "(of_char c :: int) = int (of_char c)"
    by (simp add: of_nat_of_char)
  moreover have "(of_char c :: nat) < 256"
    by simp
  ultimately show ?thesis
    by linarith
qed

lemma char_code_toupper:
  "(of_char (toupper c) :: int) =
     (if 97 \<le> (of_char c :: int) \<and> (of_char c :: int) \<le> 122 then of_char c - 32
      else of_char c)"
  by (simp add: toupper_def)

lemma charToIndex_eq:
  "charToIndex c =
     (if 97 \<le> (of_char c :: int) \<and> (of_char c :: int) \<le> 122 then of_char c - 97
      else of_char c - 65)"
  by (simp add: charToIndex_def char_code_toupper FIRST_LETTER_def)

lemma char_code_indexToChar:
  "0 \<le> n \<Longrightarrow> n < 26 \<Longrightarrow> (of_char (indexToChar n) :: int) = 65 + n"
  by (simp add: indexToChar_def c_rem_nonneg FIRST_LETTER_def ALPHABET_SIZE_def)

lemma charToIndex_indexToChar: "0 \<le> n \<Longrightarrow> n < 26 \<Longrightarrow> charToIndex (indexToChar n) = n"
  by (simp add: charToIndex_eq char_code_indexToChar)

lemma isalpha_iff: "isalpha c \<longleftrightarrow> 0 \<le> charToIndex c \<and> charToIndex c < 26"
  using char_code_bounds [of c] by (auto simp add: charToIndex_eq isalpha_def)

lemma isupper_indexToChar: "0 \<le> n \<Longrightarrow> n < 26 \<Longrightarrow> isupper (indexToChar n)"
  by (simp add: isupper_def char_code_indexToChar)

lemma isupper_isalpha: "isupper c \<Longrightarrow> isalpha c"
  by (simp add: isupper_def isalpha_def)

lemma toupper_isupper: "isupper c \<Longrightarrow> toupper c = c"
  by (simp add: toupper_def isupper_def)

lemma toupper_idem: "toupper (toupper c) = toupper c"
  using char_code_bounds [of c] by (simp add: toupper_def)

lemma isupper_toupper: "isalpha c \<Longrightarrow> isupper (toupper c)"
  by (auto simp add: isupper_def isalpha_def char_code_toupper)

lemma charToIndex_toupper: "charToIndex (toupper c) = charToIndex c"
  by (simp add: charToIndex_def toupper_idem)

lemma indexToChar_charToIndex: "isalpha c \<Longrightarrow> indexToChar (charToIndex c) = toupper c"
proof (rule of_char_eqI [where ?'a = int])
  assume a: "isalpha c"
  then have r: "0 \<le> charToIndex c" "charToIndex c < 26"
    by (simp_all add: isalpha_iff)
  show "(of_char (indexToChar (charToIndex c)) :: int) = of_char (toupper c)"
    using a by (simp add: char_code_indexToChar [OF r] char_code_toupper)
      (auto simp add: charToIndex_eq isalpha_def)
qed

lemma charToIndex_inj_upper:
  "isupper c \<Longrightarrow> isupper d \<Longrightarrow> charToIndex c = charToIndex d \<Longrightarrow> c = d"
  by (metis indexToChar_charToIndex isupper_isalpha toupper_isupper)

lemma indexToChar_nonneg:
  assumes "0 \<le> n"
  shows "isupper (indexToChar n) \<and> charToIndex (indexToChar n) = n mod 26"
proof -
  have e: "indexToChar n = indexToChar (n mod 26)"
    using assms by (simp add: indexToChar_def c_rem_nonneg ALPHABET_SIZE_def)
  show ?thesis
    by (subst e, subst e) (simp add: isupper_indexToChar charToIndex_indexToChar)
qed

text \<open>
  Claim C5 at the index \<open>-1\<close>: \<open>indexToChar\<close> does not wrap it to \<open>Z\<close>, the letter
  whose index is \<open>(-1) mod 26 = 25\<close>; the C++ remainder of \<open>-1\<close> is \<open>-1\<close> and the
  result is \<open>@\<close>, which is not a letter.  The code reaches \<open>indexToChar\<close> with a
  negative index: \<open>setRotorPositions\<close> with \<open>-1\<close> stores the position \<open>-1\<close>, which
  \<^verbatim>\<open>getCurrentState\<close> hands to \<open>indexToChar\<close>; and a rotor set to position \<open>-25\<close> and
  ring setting \<open>25\<close> sends \<open>A\<close> backward to the digit \<open>7\<close>, from the index \<open>-10\<close>.
\<close>

theorem indexToChar_negative_index:
  "indexToChar (- 1) = CHR ''@'' \<and> \<not> isupper (indexToChar (- 1)) \<and>
   charToIndex (indexToChar (- 1)) \<noteq> (- 1) mod 26 \<and>
   setRotorPositions (enigma_at 0 0 0) (- 1) 0 0 = Inr (enigma_at (- 1) 0 0) \<and>
   indexToChar (getPosition (rotors (enigma_at (- 1) 0 0) ! 0)) = CHR ''@'' \<and>
   applyOffset (setRingSetting (setPosition rotorI (- 25)) 25) 14 True = - 10 \<and>
   Rotor_process (setRingSetting (setPosition rotorI (- 25)) 25) CHR ''A'' False = Inr CHR ''7''"
proof -
  have 1: "indexToChar (- 1) = CHR ''@'' \<and> \<not> isupper (indexToChar (- 1)) \<and>
      charToIndex (indexToChar (- 1)) \<noteq> (- 1) mod 26"
    by (simp add: indexToChar_def c_rem_def ALPHABET_SIZE_def FIRST_LETTER_def char_of_eq_iff
        isupper_def charToIndex_eq)
  have 2: "setRotorPositions (enigma_at 0 0 0) (- 1) 0 0 = Inr (enigma_at (- 1) 0 0)"
    by (simp add: setRotorPositions_def enigma_at_def Let_def setPosition_def c_rem_def
        ALPHABET_SIZE_def)
  have 3: "indexToChar (getPosition (rotors (enigma_at (- 1) 0 0) ! 0)) = CHR ''@''"
    using 1 by (simp add: enigma_at_def getPosition_def)
  have 4: "applyOffset (setRingSetting (setPosition rotorI (- 25)) 25) 14 True = - 10"
    "Rotor_process (setRingSetting (setPosition rotorI (- 25)) 25) CHR ''A'' False = Inr CHR ''7''"
    by code_simp+
  show ?thesis
    using 1 2 3 4 by blast
qed

section \<open>Plugboard\<close>

lemma connect_throws_iff:
  "fst (connect pb a b) \<noteq> None \<longleftrightarrow>
     connections pb (toupper a) \<noteq> None \<or> connections pb (toupper b) \<noteq> None"
  by (simp add: connect_def Let_def)

lemma connect_throws_state: "fst (connect pb a b) \<noteq> None \<Longrightarrow> snd (connect pb a b) = pb"
  by (cases "connections pb (toupper a) \<noteq> None \<or> connections pb (toupper b) \<noteq> None")
    (simp_all add: connect_def Let_def)

lemma connect_ok_connections:
  "fst (connect pb a b) = None \<Longrightarrow>
   connections (snd (connect pb a b)) =
     ((connections pb)(toupper a \<mapsto> toupper b))(toupper b \<mapsto> toupper a)"
  by (simp add: connect_def Let_def split: if_splits)

lemma Plugboard_process_state: "snd (Plugboard_process pb x) = pb"
  by (simp add: Plugboard_process_def Let_def split: option.splits)

lemma Plugboard_process_result:
  "fst (Plugboard_process pb x) =
     (case connections pb (toupper x) of Some paired \<Rightarrow> paired | None \<Rightarrow> toupper x)"
  by (simp add: Plugboard_process_def Let_def split: option.splits)

text \<open>
  Claim C7: \<^verbatim>\<open>connect(a, b)\<close> throws exactly when the upper-case form of \<open>a\<close> or of
  \<open>b\<close> already has an entry in the connections map; when it throws, the exception
  is the configuration error and the plugboard is left as it was; when it does not
  throw, \<open>process\<close> maps \<open>a\<close> to (the upper-case form of) \<open>b\<close> and \<open>b\<close> to \<open>a\<close>, in
  particular \<open>A\<close> to \<open>B\<close> and \<open>B\<close> to \<open>A\<close> after \<^verbatim>\<open>connect('A','B')\<close>.
\<close>

theorem connect_raises_iff_paired:
  "(fst (connect pb a b) \<noteq> None \<longleftrightarrow>
      connections pb (toupper a) \<noteq> None \<or> connections pb (toupper b) \<noteq> None) \<and>
   (fst (connect pb a b) \<noteq> None \<longrightarrow>
      fst (connect pb a b) = Some (InvalidArgument ''One or both letters are already connected'') \<and>
      snd (connect pb a b) = pb) \<and>
   (fst (connect pb a b) = None \<longrightarrow>
      fst (Plugboard_process (snd (connect pb a b)) a) = toupper b \<and>
      fst (Plugboard_process (snd (connect pb a b)) b) = toupper a) \<and>
   (fst (connect pb CHR ''A'' CHR ''B'') = None \<longrightarrow>
      fst (Plugboard_process (snd (connect pb CHR ''A'' CHR ''B'')) CHR ''A'') = CHR ''B'' \<and>
      fst (Plugboard_process (snd (connect pb CHR ''A'' CHR ''B'')) CHR ''B'') = CHR ''A'')"
proof -
  have ok: "fst (Plugboard_process (snd (connect pb x y)) x) = toupper y \<and>
            fst (Plugboard_process (snd (connect pb x y)) y) = toupper x"
    if "fst (connect pb x y) = None" for x y
    using that by (simp add: Plugboard_process_result connect_ok_connections)
  have up: "toupper CHR ''A'' = CHR ''A''" "toupper CHR ''B'' = CHR ''B''"
    by (simp_all add: toupper_def)
  show ?thesis
    using ok [of a b] ok [of "CHR ''A''" "CHR ''B''"]
    by (simp add: connect_throws_iff connect_throws_state up) (simp add: connect_def Let_def)
qed

theorem connect_raises_iff_paired_witness:
  "fst (connect Plugboard_new CHR ''A'' CHR ''B'') = None \<and>
   fst (Plugboard_process (snd (connect Plugboard_new CHR ''A'' CHR ''B'')) CHR ''A'') = CHR ''B'' \<and>
   fst (Plugboard_process (snd (connect Plugboard_new CHR ''A'' CHR ''B'')) CHR ''B'') = CHR ''A'' \<and>
   fst (connect (snd (connect Plugboard_new CHR ''A'' CHR ''B'')) CHR ''A'' CHR ''C'') \<noteq> None \<and>
   snd (connect (snd (connect Plugboard_new CHR ''A'' CHR ''B'')) CHR ''A'' CHR ''C'') =
     snd (connect Plugboard_new CHR ''A'' CHR ''B'')"
proof -
  have n: "fst (connect Plugboard_new CHR ''A'' CHR ''B'') = None"
    by (simp add: connect_def Plugboard_new_def Let_def)
  have t: "fst (connect (snd (connect Plugboard_new CHR ''A'' CHR ''B'')) CHR ''A'' CHR ''C'') \<noteq> None"
    by (simp add: connect_def Plugboard_new_def Let_def toupper_def)
  note w1 = connect_raises_iff_paired [of Plugboard_new "CHR ''A''" "CHR ''B''"]
  note w2 = connect_raises_iff_paired
    [of "snd (connect Plugboard_new CHR ''A'' CHR ''B'')" "CHR ''A''" "CHR ''C''"]
  from w1 n have p: "fst (Plugboard_process (snd (connect Plugboard_new CHR ''A'' CHR ''B'')) CHR ''A'') = CHR ''B'' \<and>
   fst (Plugboard_process (snd (connect Plugboard_new CHR ''A'' CHR ''B'')) CHR ''B'') = CHR ''A''"
    by blast
  from w2 t have q: "snd (connect (snd (connect Plugboard_new CHR ''A'' CHR ''B'')) CHR ''A'' CHR ''C'') =
     snd (connect Plugboard_new CHR ''A'' CHR ''B'')"
    by blast
  show ?thesis
    using n t p q by blast
qed

lemma symmetric_new: "symmetric_connections Plugboard_new"
  by (simp add: symmetric_connections_def Plugboard_new_def)

lemma symmetric_clear: "symmetric_connections (clearConnections pb)"
  by (simp add: symmetric_connections_def clearConnections_def)

lemma symmetric_connect:
  assumes "symmetric_connections pb" "connect pb a b = (None, pb')"
  shows "symmetric_connections pb'"
proof -
  have f: "fst (connect pb a b) = None" and s: "pb' = snd (connect pb a b)"
    using assms(2) by simp_all
  have free: "connections pb (toupper a) = None" "connections pb (toupper b) = None"
    using f connect_throws_iff [of pb a b] by auto
  have c: "connections pb' = ((connections pb)(toupper a \<mapsto> toupper b))(toupper b \<mapsto> toupper a)"
    using f s by (simp add: connect_ok_connections)
  show ?thesis
    unfolding symmetric_connections_def
  proof (intro allI impI)
    fix k v
    assume kv: "connections pb' k = Some v"
    show "connections pb' v = Some k \<and> toupper k = k"
    proof (cases "k = toupper a \<or> k = toupper b")
      case True
      then show ?thesis
        using kv c by (auto simp add: toupper_idem split: if_splits)
    next
      case False
      then have old: "connections pb k = Some v"
        using kv c by simp
      then have "connections pb v = Some k" "toupper k = k"
        using assms(1) unfolding symmetric_connections_def by blast+
      moreover have "v \<noteq> toupper a" "v \<noteq> toupper b"
        using free \<open>connections pb v = Some k\<close> by auto
      ultimately show ?thesis
        using c by simp
    qed
  qed
qed

lemma symmetric_calls:
  "symmetric_connections pb \<Longrightarrow> plugboard_calls pb cs = Some pb' \<Longrightarrow> symmetric_connections pb'"
proof (induction pb cs rule: plugboard_calls.induct)
  case (1 pb)
  then show ?case by simp
next
  case (2 pb a b cs)
  obtain e pb1 where c: "connect pb a b = (e, pb1)"
    by (cases "connect pb a b")
  with 2(3) have e: "e = None" and r: "plugboard_calls pb1 cs = Some pb'"
    by (auto split: option.splits)
  have "symmetric_connections pb1"
    using 2(2) c e by (auto intro: symmetric_connect)
  then show ?case
    using 2(1) c e r by simp
next
  case (3 pb cs)
  then show ?case
    by (simp add: symmetric_clear)
qed

lemma symmetric_process_twice:
  assumes "symmetric_connections pb"
  shows "fst (Plugboard_process pb (fst (Plugboard_process pb x))) = toupper x"
proof (cases "connections pb (toupper x)")
  case None
  then show ?thesis
    by (simp add: Plugboard_process_result toupper_idem)
next
  case (Some v)
  then have "connections pb v = Some (toupper x)"
    using assms unfolding symmetric_connections_def by blast
  moreover from this have "toupper v = v"
    using assms unfolding symmetric_connections_def by blast
  ultimately show ?thesis
    using Some by (simp add: Plugboard_process_result)
qed

text \<open>
  Claim C9: after any sequence of \<^verbatim>\<open>connect\<close> calls that did not throw and
  \<^verbatim>\<open>clearConnections\<close> calls on a new plugboard, the connections map is its own
  inverse, \<open>process (process x) = x\<close> for each of the 26 letters \<open>x\<close> (for any
  character, \<open>process (process x)\<close> is the upper-case form of \<open>x\<close>), a letter without
  an entry is mapped to itself, and \<open>process\<close> leaves the plugboard as it was.
\<close>

theorem plugboard_self_inverse:
  assumes "plugboard_calls Plugboard_new calls = Some pb"
  shows "(\<forall>k v. connections pb k = Some v \<longrightarrow> connections pb v = Some k) \<and>
         (\<forall>x. isupper x \<longrightarrow> fst (Plugboard_process pb (fst (Plugboard_process pb x))) = x) \<and>
         (\<forall>x. fst (Plugboard_process pb (fst (Plugboard_process pb x))) = toupper x) \<and>
         (\<forall>x. isupper x \<and> connections pb x = None \<longrightarrow> fst (Plugboard_process pb x) = x) \<and>
         (\<forall>x. snd (Plugboard_process pb x) = pb)"
proof -
  have s: "symmetric_connections pb"
    using assms symmetric_new by (rule symmetric_calls [rotated])
  have "\<forall>k v. connections pb k = Some v \<longrightarrow> connections pb v = Some k"
    using s unfolding symmetric_connections_def by blast
  moreover have "\<forall>x. fst (Plugboard_process pb (fst (Plugboard_process pb x))) = toupper x"
    by (simp add: symmetric_process_twice [OF s])
  moreover have "\<forall>x. isupper x \<longrightarrow> fst (Plugboard_process pb (fst (Plugboard_process pb x))) = x"
    by (simp add: symmetric_process_twice [OF s] toupper_isupper)
  moreover have "\<forall>x. isupper x \<and> connections pb x = None \<longrightarrow> fst (Plugboard_process pb x) = x"
    by (simp add: Plugboard_process_result toupper_isupper)
  moreover have "\<forall>x. snd (Plugboard_process pb x) = pb"
    by (simp add: Plugboard_process_state)
  ultimately show ?thesis
    by blast
qed

theorem plugboard_self_inverse_witness:
  "fst (Plugboard_process (the (plugboard_calls Plugboard_new
      [Connect CHR ''x'' CHR ''y'', ClearConnections, Connect CHR ''A'' CHR ''B'']))
     (fst (Plugboard_process (the (plugboard_calls Plugboard_new
      [Connect CHR ''x'' CHR ''y'', ClearConnections, Connect CHR ''A'' CHR ''B''])) CHR ''A''))) = CHR ''A''"
proof -
  obtain pb where pb: "plugboard_calls Plugboard_new
      [Connect CHR ''x'' CHR ''y'', ClearConnections, Connect CHR ''A'' CHR ''B''] = Some pb"
    by (simp add: connect_def Plugboard_new_def clearConnections_def Let_def toupper_def)
  have "isupper CHR ''A''"
    by (simp add: isupper_def)
  with plugboard_self_inverse [OF pb]
  have "fst (Plugboard_process pb (fst (Plugboard_process pb CHR ''A''))) = CHR ''A''"
    by blast
  then show ?thesis
    by (simp only: pb option.sel)
qed

text \<open>
  Claim C10: when \<open>a\<close> has no entry yet, \<^verbatim>\<open>connect(a, a)\<close> does not throw; it records
  the pairing of \<open>a\<close> with itself, after which \<open>process\<close> maps the letter \<open>a\<close> to
  itself, and every later \<^verbatim>\<open>connect\<close> call with \<open>a\<close> as one of its arguments throws.
\<close>

theorem connect_self_pairing:
  assumes "connections pb (toupper a) = None"
  shows "fst (connect pb a a) = None \<and>
         connections (snd (connect pb a a)) (toupper a) = Some (toupper a) \<and>
         fst (Plugboard_process (snd (connect pb a a)) a) = toupper a \<and>
         (isupper a \<longrightarrow> fst (Plugboard_process (snd (connect pb a a)) a) = a) \<and>
         (\<forall>b. fst (connect (snd (connect pb a a)) a b) \<noteq> None \<and>
              fst (connect (snd (connect pb a a)) b a) \<noteq> None)"
proof -
  have ok: "fst (connect pb a a) = None"
    using assms connect_throws_iff [of pb a a] by auto
  have c: "connections (snd (connect pb a a)) (toupper a) = Some (toupper a)"
    using ok by (simp add: connect_ok_connections)
  have p: "fst (Plugboard_process (snd (connect pb a a)) a) = toupper a"
    using c by (simp add: Plugboard_process_result)
  have t: "fst (connect (snd (connect pb a a)) a b) \<noteq> None \<and>
           fst (connect (snd (connect pb a a)) b a) \<noteq> None" for b
    using c connect_throws_iff [of "snd (connect pb a a)" a b]
      connect_throws_iff [of "snd (connect pb a a)" b a] by auto
  show ?thesis
    using ok c p t by (auto simp add: toupper_isupper)
qed

theorem connect_self_pairing_witness:
  "fst (connect Plugboard_new CHR ''Q'' CHR ''Q'') = None \<and>
   fst (Plugboard_process (snd (connect Plugboard_new CHR ''Q'' CHR ''Q'')) CHR ''Q'') = CHR ''Q'' \<and>
   fst (connect (snd (connect Plugboard_new CHR ''Q'' CHR ''Q'')) CHR ''Q'' CHR ''W'') \<noteq> None"
proof -
  have f: "connections Plugboard_new (toupper CHR ''Q'') = None"
    by (simp add: Plugboard_new_def)
  have u: "isupper CHR ''Q''"
    by (simp add: isupper_def)
  show ?thesis
    using connect_self_pairing [OF f] u by blast
qed

section \<open>Stepping\<close>

lemma rotateRotors_three:
  "rotateRotors (m\<lparr>rotors := [left, middle, right]\<rparr>) =
     Inr (m\<lparr>rotors :=
       [if isAtNotch (rotate_c right)
        then (if isAtNotch middle then rotate_c (rotate_c left) else rotate_c left)
        else (if isAtNotch middle then rotate_c left else left),
        if isAtNotch (rotate_c right) then rotate_c middle else middle,
        rotate_c right]\<rparr>)"
  by (simp add: rotateRotors_def Let_def)

lemma rotateRotors_left_notch:
  "rotateRotors (m\<lparr>rotors := [left\<lparr>notchPosition := n\<rparr>, middle, right]\<rparr>) = Inr m1 \<Longrightarrow>
   rotateRotors (m\<lparr>rotors := [left, middle, right]\<rparr>) = Inr m2 \<Longrightarrow>
   map position (rotors m1) = map position (rotors m2)"
  by (auto simp add: rotateRotors_three rotate_c_def)

text \<open>
  Claim C2 at the first machine of \<^verbatim>\<open>main\<close> (notches 16, 4, 21).  From positions
  0, 4, 0 the middle rotor is at its notch before any rotation, and the stepping
  procedure leaves it at 4: only the right and the left rotor advance.  From
  positions 0, 0, 20 neither the middle nor the left rotor is at its notch, and
  both advance with the right rotor.  From positions 0, 4, 20 the left rotor
  advances by two in one step.
\<close>

theorem rotateRotors_misses_double_step:
  "isAtNotch (rotors (enigma_at 0 4 0) ! 1) \<and>
   rotateRotors (enigma_at 0 4 0) = Inr (enigma_at 1 4 1) \<and>
   \<not> isAtNotch (rotors (enigma_at 0 0 20) ! 1) \<and>
   \<not> isAtNotch (rotors (enigma_at 0 0 20) ! 0) \<and>
   rotateRotors (enigma_at 0 0 20) = Inr (enigma_at 1 1 21) \<and>
   rotateRotors (enigma_at 0 4 20) = Inr (enigma_at 2 5 21)"
  by (simp add: enigma_at_def rotorI_def rotorII_def rotorIII_def c_rem_def rotateRotors_def
      Let_def isAtNotch_def rotate_c_def ALPHABET_SIZE_def)

section \<open>Reverse wiring\<close>

lemma distinct_charToIndex_nth:
  assumes "distinct (map charToIndex w)" "i < length w" "j < length w"
    and "charToIndex (w ! i) = charToIndex (w ! j)"
  shows "i = j"
proof -
  have "map charToIndex w ! i = map charToIndex w ! j"
    using assms by simp
  moreover have "(map charToIndex w ! i = map charToIndex w ! j) = (i = j)"
    using assms(1-3) by (intro nth_eq_iff_index_eq) simp_all
  ultimately show ?thesis
    by blast
qed

lemma buildReverseWiring_loop_correct:
  "length w = 26 \<Longrightarrow> list_all isalpha w \<Longrightarrow> distinct (map charToIndex w) \<Longrightarrow>
   length rw = 26 \<Longrightarrow> 0 \<le> i \<Longrightarrow> i \<le> 26 \<Longrightarrow>
   \<exists>rw'. buildReverseWiring_loop w i rw = Inr rw' \<and> length rw' = 26 \<and>
     (\<forall>j. nat i \<le> j \<and> j < 26 \<longrightarrow> rw' ! nat (charToIndex (w ! j)) = indexToChar (int j)) \<and>
     (\<forall>k<26. (\<forall>j. nat i \<le> j \<and> j < 26 \<longrightarrow> charToIndex (w ! j) \<noteq> int k) \<longrightarrow> rw' ! k = rw ! k)"
proof (induction w i rw rule: buildReverseWiring_loop.induct)
  case (1 w i rw)
  note len = \<open>length w = 26\<close> and alpha = \<open>list_all isalpha w\<close>
    and dist = \<open>distinct (map charToIndex w)\<close> and lrw = \<open>length rw = 26\<close>
  show ?case
  proof (cases "i < 26")
    case False
    with 1 have "i = 26"
      by simp
    then show ?thesis
      using lrw by (subst buildReverseWiring_loop.simps) (auto simp add: ALPHABET_SIZE_def)
  next
    case True
    define k0 where "k0 = charToIndex (w ! nat i)"
    define rw1 where "rw1 = rw[nat k0 := indexToChar i]"
    have ni: "nat i < 26"
      using True \<open>0 \<le> i\<close> by simp
    have at: "string_at w i = Inr (w ! nat i)"
      using True \<open>0 \<le> i\<close> len by (simp add: string_at_def)
    have "isalpha (w ! nat i)"
      using alpha ni len by (simp add: list_all_length)
    then have k0: "0 \<le> k0" "k0 < 26"
      by (simp_all add: k0_def isalpha_iff)
    have unfold: "buildReverseWiring_loop w i rw = buildReverseWiring_loop w (i + 1) rw1"
      using True at k0 lrw
      by (subst buildReverseWiring_loop.simps)
        (simp add: ALPHABET_SIZE_def Let_def k0_def [symmetric] rw1_def)
    have "\<exists>rw'. buildReverseWiring_loop w (i + 1) rw1 = Inr rw' \<and> length rw' = 26 \<and>
       (\<forall>j. nat (i + 1) \<le> j \<and> j < 26 \<longrightarrow>
            rw' ! nat (charToIndex (w ! j)) = indexToChar (int j)) \<and>
       (\<forall>k<26. (\<forall>j. nat (i + 1) \<le> j \<and> j < 26 \<longrightarrow> charToIndex (w ! j) \<noteq> int k) \<longrightarrow>
            rw' ! k = rw1 ! k)"
      unfolding rw1_def k0_def
    proof (rule "1.IH" [OF _ at refl])
      show "i < ALPHABET_SIZE"
        using True by (simp add: ALPHABET_SIZE_def)
      show "0 \<le> charToIndex (w ! nat i) \<and> charToIndex (w ! nat i) < int (length rw)"
        using k0 lrw by (simp add: k0_def)
    qed (use len alpha dist lrw True \<open>0 \<le> i\<close> in simp_all)
    then obtain rw' where run: "buildReverseWiring_loop w (i + 1) rw1 = Inr rw'"
      and lrw': "length rw' = 26"
      and A: "\<And>j. nat (i + 1) \<le> j \<Longrightarrow> j < 26 \<Longrightarrow>
                rw' ! nat (charToIndex (w ! j)) = indexToChar (int j)"
      and B: "\<And>k. k < 26 \<Longrightarrow>
                (\<forall>j. nat (i + 1) \<le> j \<and> j < 26 \<longrightarrow> charToIndex (w ! j) \<noteq> int k) \<Longrightarrow>
                rw' ! k = rw1 ! k"
      by blast
    have fresh: "charToIndex (w ! j) \<noteq> k0" if "nat (i + 1) \<le> j" "j < 26" for j
    proof
      assume "charToIndex (w ! j) = k0"
      then have "j = nat i"
        using distinct_charToIndex_nth [OF dist, of j "nat i"] that ni len
        by (simp add: k0_def)
      then show False
        using that \<open>0 \<le> i\<close> by simp
    qed
    have here: "rw' ! nat k0 = indexToChar i"
    proof -
      have "rw' ! nat k0 = rw1 ! nat k0"
        using k0 fresh by (intro B) auto
      then show ?thesis
        using k0 lrw by (simp add: rw1_def)
    qed
    have A': "rw' ! nat (charToIndex (w ! j)) = indexToChar (int j)"
      if "nat i \<le> j" "j < 26" for j
    proof (cases "j = nat i")
      case True
      then show ?thesis
        using here \<open>0 \<le> i\<close> by (simp add: k0_def)
    next
      case False
      then show ?thesis
        using that \<open>0 \<le> i\<close> by (intro A) linarith+
    qed
    have B': "rw' ! k = rw ! k"
      if "k < 26" "\<forall>j. nat i \<le> j \<and> j < 26 \<longrightarrow> charToIndex (w ! j) \<noteq> int k" for k
    proof -
      have "rw' ! k = rw1 ! k"
        using that \<open>0 \<le> i\<close> by (intro B) auto
      moreover have "k \<noteq> nat k0"
        using that(2) ni k0 by (auto simp add: k0_def)
      ultimately show ?thesis
        by (simp add: rw1_def)
    qed
    show ?thesis
      using unfold run lrw' A' B' by auto
  qed
qed

lemma charToIndex_onto:
  assumes "valid_wiring w" "0 \<le> k" "k < 26"
  shows "\<exists>i<26. charToIndex (w ! i) = k"
proof -
  have len: "length w = 26" and alpha: "list_all isalpha w"
    and dist: "distinct (map charToIndex w)"
    using assms(1) by (simp_all add: valid_wiring_def)
  have sub: "set (map charToIndex w) \<subseteq> {0..<26}"
    using alpha by (auto simp add: list_all_iff isalpha_iff)
  have "card (set (map charToIndex w)) = 26"
    using distinct_card [OF dist] len by simp
  then have "set (map charToIndex w) = {0..<26}"
    using sub by (intro card_subset_eq) simp_all
  then have "k \<in> set (map charToIndex w)"
    using assms(2,3) by simp
  then obtain i where "i < length w" "map charToIndex w ! i = k"
    by (metis in_set_conv_nth length_map)
  then show ?thesis
    using len by auto
qed

lemma buildReverseWiring_inverse:
  assumes "valid_wiring w"
  shows "\<exists>rw. buildReverseWiring w = Inr rw \<and> length rw = 26 \<and>
           (\<forall>i<26. rw ! nat (charToIndex (w ! i)) = indexToChar (int i)) \<and>
           (\<forall>k. 0 \<le> k \<and> k < 26 \<longrightarrow>
              isupper (rw ! nat k) \<and> charToIndex (w ! nat (charToIndex (rw ! nat k))) = k)"
proof -
  have len: "length w = 26" and alpha: "list_all isalpha w"
    and dist: "distinct (map charToIndex w)"
    using assms by (simp_all add: valid_wiring_def)
  obtain rw where run: "buildReverseWiring w = Inr rw" and lrw: "length rw = 26"
    and A: "\<And>j. j < 26 \<Longrightarrow> rw ! nat (charToIndex (w ! j)) = indexToChar (int j)"
    using buildReverseWiring_loop_correct
      [OF len alpha dist, of "replicate (nat ALPHABET_SIZE) (char_of (0::int))" 0]
    by (auto simp add: buildReverseWiring_def ALPHABET_SIZE_def)
  have inv: "isupper (rw ! nat k) \<and> charToIndex (w ! nat (charToIndex (rw ! nat k))) = k"
    if k: "0 \<le> k" "k < 26" for k
  proof -
    obtain i where i: "i < 26" "charToIndex (w ! i) = k"
      using charToIndex_onto [OF assms k] by blast
    then have "rw ! nat k = indexToChar (int i)"
      using A [of i] by simp
    then show ?thesis
      using i by (simp add: isupper_indexToChar charToIndex_indexToChar)
  qed
  show ?thesis
    using run lrw A inv by blast
qed

text \<open>
  Claim C4: for a rotor constructed from a wiring permutation \<open>w\<close>, the reverse
  wiring computed at construction is the inverse of the forward wiring: for every
  index \<open>i\<close> in \<open>0..25\<close>, \<open>reverseWiring[charToIndex(wiring[i])]\<close> is
  \<open>indexToChar(i)\<close>, so that the index of that character is \<open>i\<close> again.
\<close>

theorem reverse_wiring_is_inverse:
  assumes "valid_wiring w"
  shows "\<exists>r. Rotor_new w notch n = Inr r \<and> wiring r = w \<and> length (reverseWiring r) = 26 \<and>
           (\<forall>i<26. reverseWiring r ! nat (charToIndex (wiring r ! i)) = indexToChar (int i) \<and>
                   charToIndex (reverseWiring r ! nat (charToIndex (wiring r ! i))) = int i)"
proof -
  obtain rw where run: "buildReverseWiring w = Inr rw" and lrw: "length rw = 26"
    and A: "\<And>i. i < 26 \<Longrightarrow> rw ! nat (charToIndex (w ! i)) = indexToChar (int i)"
    using buildReverseWiring_inverse [OF assms] by blast
  have "length w = 26"
    using assms by (simp add: valid_wiring_def)
  then show ?thesis
    using run lrw A
    by (simp add: Rotor_new_def EnigmaComponent_new_def ALPHABET_SIZE_def
        charToIndex_indexToChar)
qed

lemma valid_wiring_rotorI: "valid_wiring ''EKMFLGDQVZNTOWYHXUSPAIBRCJ''"
  by (simp add: valid_wiring_def isalpha_def charToIndex_eq)

theorem reverse_wiring_is_inverse_witness:
  "\<exists>r. Rotor_new ''EKMFLGDQVZNTOWYHXUSPAIBRCJ'' 16 ''Rotor I'' = Inr r \<and>
       reverseWiring r ! nat (charToIndex (wiring r ! 0)) = indexToChar 0 \<and>
       charToIndex (reverseWiring r ! nat (charToIndex (wiring r ! 25))) = 25"
proof -
  obtain r where r: "Rotor_new ''EKMFLGDQVZNTOWYHXUSPAIBRCJ'' 16 ''Rotor I'' = Inr r"
    and inv: "\<And>i. i < 26 \<Longrightarrow>
      reverseWiring r ! nat (charToIndex (wiring r ! i)) = indexToChar (int i) \<and>
      charToIndex (reverseWiring r ! nat (charToIndex (wiring r ! i))) = int i"
    using reverse_wiring_is_inverse [OF valid_wiring_rotorI, of 16 "''Rotor I''"] by blast
  show ?thesis
    using r inv [of 0] inv [of 25] by (simp add: charToIndex_indexToChar)
qed

section \<open>The stages of the signal path\<close>

lemma letter_stage_then:
  assumes "letter_stage f" "letter_stage g"
  shows "letter_stage (then_stage f g)"
  unfolding letter_stage_def
proof (intro conjI allI impI)
  fix c
  assume "isalpha c"
  then obtain d where "f c = Inr d" "isalpha d"
    using assms(1) unfolding letter_stage_def by blast
  moreover from this obtain d' where "g d = Inr d'" "isalpha d'"
    using assms(2) unfolding letter_stage_def by blast
  ultimately show "\<exists>d. then_stage f g c = Inr d \<and> isalpha d"
    by (simp add: then_stage_def)
next
  fix c1 c2 d1 d2
  assume a: "isalpha c1 \<and> isalpha c2 \<and> then_stage f g c1 = Inr d1 \<and>
             then_stage f g c2 = Inr d2 \<and> charToIndex d1 = charToIndex d2"
  obtain e1 where e1: "f c1 = Inr e1" "isalpha e1"
    using assms(1) a unfolding letter_stage_def by blast
  obtain e2 where e2: "f c2 = Inr e2" "isalpha e2"
    using assms(1) a unfolding letter_stage_def by blast
  have "g e1 = Inr d1" "g e2 = Inr d2"
    using a e1 e2 by (simp_all add: then_stage_def)
  then have "charToIndex e1 = charToIndex e2"
    using assms(2) a e1 e2 unfolding letter_stage_def by blast
  then show "charToIndex c1 = charToIndex c2"
    using assms(1) a e1 e2 unfolding letter_stage_def by blast
qed

lemma c_rem_mod: "0 \<le> a \<Longrightarrow> a mod 26 = b mod 26 \<Longrightarrow> c_rem a 26 = b mod 26"
  by (simp add: c_rem_nonneg)

lemma applyOffset_valid:
  assumes "0 \<le> position r" "position r < 26" "0 \<le> ringSetting r" "ringSetting r < 26"
    and "0 \<le> x" "x < 26"
  shows "applyOffset r x forward =
           (if forward then (x + (position r - ringSetting r)) mod 26
            else (x - (position r - ringSetting r)) mod 26)"
proof -
  define d where "d = position r - ringSetting r"
  have d: "- 26 < d" "d < 26"
    using assms by (simp_all add: d_def)
  have "applyOffset r x forward =
          (if d < 0
           then (if forward then c_rem (x + (d + 26)) 26 else c_rem (x - (d + 26) + 26) 26)
           else (if forward then c_rem (x + d) 26 else c_rem (x - d + 26) 26))"
    by (simp add: applyOffset_def Let_def ALPHABET_SIZE_def d_def)
  also have "\<dots> = (if forward then (x + d) mod 26 else (x - d) mod 26)"
  proof (cases "d < 0")
    case True
    have "x + (d + 26) = x + d + 26" "x - (d + 26) + 26 = x - d"
      by simp_all
    moreover have "0 \<le> x + d + 26" "0 \<le> x - d"
      using assms(5,6) d True by simp_all
    ultimately have "c_rem (x + (d + 26)) 26 = (x + d) mod 26"
      "c_rem (x - (d + 26) + 26) 26 = (x - d) mod 26"
      by (simp_all only: c_rem_nonneg mod_add_self2)
    then show ?thesis
      using True by simp
  next
    case False
    have "0 \<le> x + d" "0 \<le> x - d + 26"
      using assms(5,6) d False by simp_all
    then have "c_rem (x + d) 26 = (x + d) mod 26" "c_rem (x - d + 26) 26 = (x - d) mod 26"
      by (simp_all only: c_rem_nonneg mod_add_self2)
    then show ?thesis
      using False by simp
  qed
  finally show ?thesis
    by (simp add: d_def)
qed

lemma applyOffset_range:
  assumes "0 \<le> position r" "position r < 26" "0 \<le> ringSetting r" "ringSetting r < 26"
    and "0 \<le> x" "x < 26"
  shows "0 \<le> applyOffset r x forward \<and> applyOffset r x forward < 26"
  by (simp add: applyOffset_valid [OF assms])

lemma applyOffset_inj:
  assumes "0 \<le> position r" "position r < 26" "0 \<le> ringSetting r" "ringSetting r < 26"
    and "0 \<le> x" "x < 26" "0 \<le> y" "y < 26"
    and "applyOffset r x forward = applyOffset r y forward"
  shows "x = y"
proof -
  define d where "d = position r - ringSetting r"
  have h: "(if forward then (x + d) mod 26 else (x - d) mod 26) =
        (if forward then (y + d) mod 26 else (y - d) mod 26)"
    using assms(9)
    by (simp only: applyOffset_valid [OF assms(1-6)] applyOffset_valid [OF assms(1-4,7,8)] d_def)
  then have "x mod 26 = y mod 26"
  proof (cases forward)
    case True
    with h have "((x + d) mod 26 - d) mod 26 = ((y + d) mod 26 - d) mod 26"
      by simp
    then show ?thesis
      by (simp add: mod_diff_left_eq)
  next
    case False
    with h have "((x - d) mod 26 + d) mod 26 = ((y - d) mod 26 + d) mod 26"
      by simp
    then show ?thesis
      by (simp add: mod_add_left_eq)
  qed
  then show ?thesis
    using assms(5-8) by simp
qed


lemma Rotor_process_valid:
  assumes "valid_rotor r" "isalpha c"
  shows "\<exists>y. 0 \<le> y \<and> y < 26 \<and>
           Rotor_process r c forward = Inr (indexToChar (applyOffset r y (\<not> forward))) \<and>
           y = charToIndex ((if forward then wiring r else reverseWiring r) !
                 nat (applyOffset r (charToIndex c) forward)) \<and>
           (forward \<longrightarrow> isalpha (wiring r ! nat (applyOffset r (charToIndex c) True))) \<and>
           (\<not> forward \<longrightarrow>
              charToIndex (wiring r ! nat y) = applyOffset r (charToIndex c) False)"
proof -
  have vw: "valid_wiring (wiring r)"
    and brw: "buildReverseWiring (wiring r) = Inr (reverseWiring r)"
    and pr: "0 \<le> position r" "position r < 26" "0 \<le> ringSetting r" "ringSetting r < 26"
    using assms(1) by (simp_all add: valid_rotor_def)
  have len: "length (wiring r) = 26" and alpha: "list_all isalpha (wiring r)"
    using vw by (simp_all add: valid_wiring_def)
  obtain rw where "buildReverseWiring (wiring r) = Inr rw" and "length rw = 26"
    and "\<And>k. 0 \<le> k \<Longrightarrow> k < 26 \<Longrightarrow>
           isupper (rw ! nat k) \<and> charToIndex (wiring r ! nat (charToIndex (rw ! nat k))) = k"
    using buildReverseWiring_inverse [OF vw] by blast
  then have lrw: "length (reverseWiring r) = 26"
    and inv: "\<And>k. 0 \<le> k \<Longrightarrow> k < 26 \<Longrightarrow> isupper (reverseWiring r ! nat k) \<and>
           charToIndex (wiring r ! nat (charToIndex (reverseWiring r ! nat k))) = k"
    using brw by simp_all
  define s where "s = applyOffset r (charToIndex c) forward"
  have x: "0 \<le> charToIndex c" "charToIndex c < 26"
    using assms(2) by (simp_all add: isalpha_iff)
  have s: "0 \<le> s" "s < 26"
    using applyOffset_range [OF pr x, of forward] by (simp_all add: s_def)
  define ch where "ch = (if forward then wiring r else reverseWiring r) ! nat s"
  have at: "string_at (if forward then wiring r else reverseWiring r) s = Inr ch"
    using s len lrw by (simp add: string_at_def ch_def)
  have a: "isalpha ch"
  proof (cases forward)
    case True
    then show ?thesis
      using alpha len s by (simp add: ch_def list_all_length)
  next
    case False
    then show ?thesis
      using inv [OF s] by (simp add: ch_def isupper_isalpha)
  qed
  then have y: "0 \<le> charToIndex ch" "charToIndex ch < 26"
    by (simp_all add: isalpha_iff)
  have run: "Rotor_process r c forward =
      Inr (indexToChar (applyOffset r (charToIndex ch) (\<not> forward)))"
    using at by (simp add: Rotor_process_def Let_def s_def [symmetric])
  have fw: "forward \<longrightarrow> isalpha (wiring r ! nat (applyOffset r (charToIndex c) True))"
    using a by (auto simp add: ch_def s_def)
  have bw: "\<not> forward \<longrightarrow>
      charToIndex (wiring r ! nat (charToIndex ch)) = applyOffset r (charToIndex c) False"
    using inv [OF s] by (auto simp add: ch_def s_def)
  show ?thesis
    using y run fw bw unfolding ch_def s_def by blast
qed

lemma Rotor_process_letter:
  assumes "valid_rotor r" "isalpha c"
  shows "\<exists>d. Rotor_process r c forward = Inr d \<and> isupper d"
proof -
  have pr: "0 \<le> position r" "position r < 26" "0 \<le> ringSetting r" "ringSetting r < 26"
    using assms(1) by (simp_all add: valid_rotor_def)
  obtain y where y: "0 \<le> y" "y < 26"
    and run: "Rotor_process r c forward = Inr (indexToChar (applyOffset r y (\<not> forward)))"
    using Rotor_process_valid [OF assms, of forward] by blast
  show ?thesis
    using run applyOffset_range [OF pr y, of "\<not> forward"] by (simp add: isupper_indexToChar)
qed

lemma Rotor_process_stage:
  assumes "valid_rotor r"
  shows "letter_stage (\<lambda>c. Rotor_process r c forward)"
  unfolding letter_stage_def
proof (intro conjI allI impI)
  fix c
  assume "isalpha c"
  then show "\<exists>d. Rotor_process r c forward = Inr d \<and> isalpha d"
    using Rotor_process_letter [OF assms, of c forward] isupper_isalpha by blast
next
  fix c1 c2 d1 d2
  assume a: "isalpha c1 \<and> isalpha c2 \<and> Rotor_process r c1 forward = Inr d1 \<and>
             Rotor_process r c2 forward = Inr d2 \<and> charToIndex d1 = charToIndex d2"
  have pr: "0 \<le> position r" "position r < 26" "0 \<le> ringSetting r" "ringSetting r < 26"
    and dist: "distinct (map charToIndex (wiring r))" and len: "length (wiring r) = 26"
    using assms by (simp_all add: valid_rotor_def valid_wiring_def)
  define W where "W = (if forward then wiring r else reverseWiring r)"
  define s1 where "s1 = applyOffset r (charToIndex c1) forward"
  define s2 where "s2 = applyOffset r (charToIndex c2) forward"
  have x1: "0 \<le> charToIndex c1" "charToIndex c1 < 26"
    and x2: "0 \<le> charToIndex c2" "charToIndex c2 < 26"
    using a by (simp_all add: isalpha_iff)
  have s1: "0 \<le> s1" "s1 < 26" and s2: "0 \<le> s2" "s2 < 26"
    using applyOffset_range [OF pr x1, of forward] applyOffset_range [OF pr x2, of forward]
    by (simp_all add: s1_def s2_def)
  obtain y1 where y1: "0 \<le> y1" "y1 < 26"
    and r1: "Rotor_process r c1 forward = Inr (indexToChar (applyOffset r y1 (\<not> forward)))"
    and e1: "y1 = charToIndex (W ! nat s1)"
    and b1: "\<not> forward \<longrightarrow> charToIndex (wiring r ! nat y1) = s1"
    using a Rotor_process_valid [OF assms, of c1 forward] unfolding W_def s1_def by auto
  obtain y2 where y2: "0 \<le> y2" "y2 < 26"
    and r2: "Rotor_process r c2 forward = Inr (indexToChar (applyOffset r y2 (\<not> forward)))"
    and e2: "y2 = charToIndex (W ! nat s2)"
    and b2: "\<not> forward \<longrightarrow> charToIndex (wiring r ! nat y2) = s2"
    using a Rotor_process_valid [OF assms, of c2 forward] unfolding W_def s2_def by auto
  have "charToIndex (indexToChar (applyOffset r y1 (\<not> forward))) =
        charToIndex (indexToChar (applyOffset r y2 (\<not> forward)))"
    using a r1 r2 by simp
  then have "applyOffset r y1 (\<not> forward) = applyOffset r y2 (\<not> forward)"
    using applyOffset_range [OF pr y1, of "\<not> forward"] applyOffset_range [OF pr y2, of "\<not> forward"]
    by (simp add: charToIndex_indexToChar)
  then have yy: "y1 = y2"
    by (rule applyOffset_inj [OF pr y1 y2])
  have "s1 = s2"
  proof (cases forward)
    case True
    then have "charToIndex (wiring r ! nat s1) = charToIndex (wiring r ! nat s2)"
      using yy e1 e2 by (simp add: W_def)
    then have "nat s1 = nat s2"
      using s1 s2 len by (intro distinct_charToIndex_nth [OF dist]) simp_all
    then show ?thesis
      using s1 s2 by simp
  next
    case False
    then show ?thesis
      using yy b1 b2 by simp
  qed
  then show "charToIndex c1 = charToIndex c2"
    unfolding s1_def s2_def by (rule applyOffset_inj [OF pr x1 x2])
qed

lemma rotor_pass_stage:
  "list_all valid_rotor rs \<Longrightarrow> letter_stage (rotor_pass rs forward)"
proof (induction rs)
  case Nil
  have "rotor_pass [] forward = Inr"
    by (rule ext) simp
  then show ?case
    by (simp add: letter_stage_def)
next
  case (Cons r rs)
  have "rotor_pass (r # rs) forward =
        then_stage (\<lambda>c. Rotor_process r c forward) (rotor_pass rs forward)"
    by (rule ext) (simp add: then_stage_def)
  then show ?case
    using Cons by (simp add: letter_stage_then Rotor_process_stage)
qed

lemma rotor_pass_upper:
  "list_all valid_rotor rs \<Longrightarrow> rs \<noteq> [] \<Longrightarrow> isalpha c \<Longrightarrow>
   \<exists>d. rotor_pass rs forward c = Inr d \<and> isupper d"
proof (induction rs arbitrary: c)
  case Nil
  then show ?case by simp
next
  case (Cons r rs)
  obtain d where d: "Rotor_process r c forward = Inr d" "isupper d"
    using Cons.prems Rotor_process_letter [of r c forward] by auto
  show ?case
  proof (cases "rs = []")
    case True
    then show ?thesis
      using d by simp
  next
    case False
    then show ?thesis
      using Cons.IH [of d] Cons.prems d by (simp add: isupper_isalpha)
  qed
qed

lemma Reflector_process_stage:
  assumes "valid_wiring (wiring rf)"
  shows "letter_stage (Reflector_process rf)"
  unfolding letter_stage_def
proof (intro conjI allI impI)
  have len: "length (wiring rf) = 26" and alpha: "list_all isalpha (wiring rf)"
    and dist: "distinct (map charToIndex (wiring rf))"
    using assms by (simp_all add: valid_wiring_def)
  {
    fix c
    assume "isalpha c"
    then have x: "0 \<le> charToIndex c" "charToIndex c < 26"
      by (simp_all add: isalpha_iff)
    then show "\<exists>d. Reflector_process rf c = Inr d \<and> isalpha d"
      using len alpha by (simp add: Reflector_process_def string_at_def list_all_length)
  }
  fix c1 c2 d1 d2
  assume a: "isalpha c1 \<and> isalpha c2 \<and> Reflector_process rf c1 = Inr d1 \<and>
             Reflector_process rf c2 = Inr d2 \<and> charToIndex d1 = charToIndex d2"
  have x1: "0 \<le> charToIndex c1" "charToIndex c1 < 26"
    and x2: "0 \<le> charToIndex c2" "charToIndex c2 < 26"
    using a by (simp_all add: isalpha_iff)
  have "d1 = wiring rf ! nat (charToIndex c1)" "d2 = wiring rf ! nat (charToIndex c2)"
    using a x1 x2 len by (simp_all add: Reflector_process_def string_at_def)
  then have "nat (charToIndex c1) = nat (charToIndex c2)"
    using a x1 x2 len by (intro distinct_charToIndex_nth [OF dist]) simp_all
  then show "charToIndex c1 = charToIndex c2"
    using x1 x2 by simp
qed

lemma Plugboard_process_upper:
  assumes "valid_plugboard pb" "isalpha c"
  shows "isupper (fst (Plugboard_process pb c))"
proof (cases "connections pb (toupper c)")
  case None
  then show ?thesis
    using assms(2) by (simp add: Plugboard_process_result isupper_toupper)
next
  case (Some v)
  then have "isupper v"
    using assms(1) unfolding valid_plugboard_def by blast
  then show ?thesis
    using Some by (simp add: Plugboard_process_result)
qed

lemma valid_plugboard_symmetric: "valid_plugboard pb \<Longrightarrow> symmetric_connections pb"
  unfolding valid_plugboard_def symmetric_connections_def
  by (blast intro: toupper_isupper)

lemma Plugboard_process_stage:
  assumes "valid_plugboard pb"
  shows "letter_stage (\<lambda>c. Inr (fst (Plugboard_process pb c)))"
  unfolding letter_stage_def
proof (intro conjI allI impI)
  fix c
  assume "isalpha c"
  then show "\<exists>d. Inr (fst (Plugboard_process pb c)) = Inr d \<and> isalpha d"
    using Plugboard_process_upper [OF assms] by (simp add: isupper_isalpha)
next
  fix c1 c2 d1 d2 :: char
  assume a: "isalpha c1 \<and> isalpha c2 \<and>
             (Inr (fst (Plugboard_process pb c1)) :: error + char) = Inr d1 \<and>
             (Inr (fst (Plugboard_process pb c2)) :: error + char) = Inr d2 \<and>
             charToIndex d1 = charToIndex d2"
  then have d: "d1 = fst (Plugboard_process pb c1)" "d2 = fst (Plugboard_process pb c2)"
    by simp_all
  then have "isupper d1" "isupper d2"
    using a Plugboard_process_upper [OF assms] by simp_all
  then have "d1 = d2"
    using a by (intro charToIndex_inj_upper) simp_all
  then have "fst (Plugboard_process pb (fst (Plugboard_process pb c1))) =
             fst (Plugboard_process pb (fst (Plugboard_process pb c2)))"
    using d by simp
  then have "toupper c1 = toupper c2"
    by (simp add: symmetric_process_twice [OF valid_plugboard_symmetric [OF assms]])
  then show "charToIndex c1 = charToIndex c2"
    by (metis charToIndex_toupper)
qed

section \<open>The machine on valid configurations\<close>

lemma valid_rotor_rotate: "valid_rotor r \<Longrightarrow> valid_rotor (rotate_c r)"
  by (simp add: valid_rotor_def rotate_c_def ALPHABET_SIZE_def c_rem_nonneg)

lemma length_three: "length xs = 3 \<Longrightarrow> \<exists>a b c. xs = [a, b, c]"
  by (cases xs; cases "tl xs"; cases "tl (tl xs)") auto

lemma rotateRotors_valid:
  assumes "valid_machine m"
  shows "\<exists>m'. rotateRotors m = Inr m' \<and> valid_machine m' \<and>
           reflector m' = reflector m \<and> plugboard m' = plugboard m"
proof -
  obtain a b c where rs: "rotors m = [a, b, c]"
    using assms length_three unfolding valid_machine_def by blast
  have v: "valid_rotor a" "valid_rotor b" "valid_rotor c"
    using assms rs by (simp_all add: valid_machine_def)
  have rest: "valid_wiring (wiring (reflector m))" "valid_plugboard (plugboard m)"
    using assms by (simp_all add: valid_machine_def)
  have eq: "m\<lparr>rotors := [a, b, c]\<rparr> = m"
    using rs by (simp add: rs [symmetric])
  show ?thesis
    using rotateRotors_three [where m = m and left = a and middle = b and right = c] v rest
    unfolding eq
    by (simp add: valid_machine_def valid_rotor_rotate)
qed

lemma encryptChar_eq:
  "encryptChar m input =
     (case rotateRotors m of
        Inl e \<Rightarrow> Inl e
      | Inr m1 \<Rightarrow>
          (case then_stage (\<lambda>c. Inr (fst (Plugboard_process (plugboard m1) c)))
                 (then_stage (rotor_pass (rev (rotors m1)) True)
                   (then_stage (Reflector_process (reflector m1))
                     (then_stage (rotor_pass (rotors m1) False)
                       (\<lambda>c. Inr (fst (Plugboard_process (plugboard m1) c)))))) input of
             Inl e \<Rightarrow> Inl e
           | Inr d \<Rightarrow> Inr (d, m1)))"
proof -
  have p: "Plugboard_process pb x = (fst (Plugboard_process pb x), pb)" for pb x
    by (metis Plugboard_process_state prod.collapse)
  show ?thesis
    unfolding encryptChar_def then_stage_def
    by (subst p, subst (2) p) (simp split: sum.splits)
qed

lemma then_stage_upper:
  assumes "letter_stage f" "upper_output g"
  shows "upper_output (then_stage f g)"
  unfolding upper_output_def
proof (intro allI impI)
  fix c d
  assume a: "isalpha c \<and> then_stage f g c = Inr d"
  then obtain e where e: "f c = Inr e" "isalpha e"
    using assms(1) unfolding letter_stage_def by blast
  then have "g e = Inr d"
    using a by (simp add: then_stage_def)
  then show "isupper d"
    using assms(2) e(2) unfolding upper_output_def by blast
qed

lemma signal_path_stage:
  assumes "valid_machine m1"
  shows "letter_stage
           (then_stage (\<lambda>c. Inr (fst (Plugboard_process (plugboard m1) c)))
              (then_stage (rotor_pass (rev (rotors m1)) True)
                (then_stage (Reflector_process (reflector m1))
                  (then_stage (rotor_pass (rotors m1) False)
                    (\<lambda>c. Inr (fst (Plugboard_process (plugboard m1) c))))))) \<and>
         upper_output
           (then_stage (\<lambda>c. Inr (fst (Plugboard_process (plugboard m1) c)))
              (then_stage (rotor_pass (rev (rotors m1)) True)
                (then_stage (Reflector_process (reflector m1))
                  (then_stage (rotor_pass (rotors m1) False)
                    (\<lambda>c. Inr (fst (Plugboard_process (plugboard m1) c)))))))"
proof -
  have r: "list_all valid_rotor (rotors m1)" "list_all valid_rotor (rev (rotors m1))"
    using assms by (simp_all add: valid_machine_def list_all_iff)
  have w: "valid_wiring (wiring (reflector m1))" and p: "valid_plugboard (plugboard m1)"
    using assms by (simp_all add: valid_machine_def)
  have "upper_output (\<lambda>c. Inr (fst (Plugboard_process (plugboard m1) c)) :: error + char)"
    using Plugboard_process_upper [OF p] by (simp add: upper_output_def)
  then have "upper_output
           (then_stage (\<lambda>c. Inr (fst (Plugboard_process (plugboard m1) c)))
              (then_stage (rotor_pass (rev (rotors m1)) True)
                (then_stage (Reflector_process (reflector m1))
                  (then_stage (rotor_pass (rotors m1) False)
                    (\<lambda>c. Inr (fst (Plugboard_process (plugboard m1) c)))))))"
    using r w p
    by (intro then_stage_upper rotor_pass_stage Reflector_process_stage Plugboard_process_stage)
  moreover have "letter_stage
           (then_stage (\<lambda>c. Inr (fst (Plugboard_process (plugboard m1) c)))
              (then_stage (rotor_pass (rev (rotors m1)) True)
                (then_stage (Reflector_process (reflector m1))
                  (then_stage (rotor_pass (rotors m1) False)
                    (\<lambda>c. Inr (fst (Plugboard_process (plugboard m1) c)))))))"
    using r w p
    by (intro letter_stage_then rotor_pass_stage Reflector_process_stage Plugboard_process_stage)
  ultimately show ?thesis
    by blast
qed

lemma encryptChar_valid:
  assumes "valid_machine m" "isalpha c"
  shows "\<exists>d m'. encryptChar m c = Inr (d, m') \<and> isupper d \<and> rotateRotors m = Inr m' \<and>
           valid_machine m'"
proof -
  obtain m1 where m1: "rotateRotors m = Inr m1" "valid_machine m1"
    using rotateRotors_valid [OF assms(1)] by blast
  define path where "path = then_stage (\<lambda>c. Inr (fst (Plugboard_process (plugboard m1) c)))
              (then_stage (rotor_pass (rev (rotors m1)) True)
                (then_stage (Reflector_process (reflector m1))
                  (then_stage (rotor_pass (rotors m1) False)
                    (\<lambda>c. Inr (fst (Plugboard_process (plugboard m1) c))))))"
  have st: "letter_stage path" "upper_output path"
    unfolding path_def using signal_path_stage [OF m1(2)] by blast+
  obtain d where d: "path c = Inr d"
    using st(1) assms(2) unfolding letter_stage_def by blast
  then have "isupper d"
    using st(2) assms(2) unfolding upper_output_def by blast
  moreover have "encryptChar m c = Inr (d, m1)"
    using m1(1) d by (simp add: encryptChar_eq path_def [symmetric])
  ultimately show ?thesis
    using m1 by blast
qed

lemma encryptChar_inj:
  assumes "valid_machine m" "isalpha c1" "isalpha c2"
    and "encryptChar m c1 = Inr (d, m1)" "encryptChar m c2 = Inr (d, m2)"
  shows "charToIndex c1 = charToIndex c2"
proof -
  obtain m' where m': "rotateRotors m = Inr m'" "valid_machine m'"
    using rotateRotors_valid [OF assms(1)] by blast
  define path where "path = then_stage (\<lambda>c. Inr (fst (Plugboard_process (plugboard m') c)))
              (then_stage (rotor_pass (rev (rotors m')) True)
                (then_stage (Reflector_process (reflector m'))
                  (then_stage (rotor_pass (rotors m') False)
                    (\<lambda>c. Inr (fst (Plugboard_process (plugboard m') c))))))"
  have st: "letter_stage path"
    unfolding path_def using signal_path_stage [OF m'(2)] by blast
  have "path c1 = Inr d" "path c2 = Inr d"
    using assms(4,5) m'(1)
    by (simp_all add: encryptChar_eq path_def [symmetric] split: sum.splits)
  then show ?thesis
    using st assms(2,3) unfolding letter_stage_def by blast
qed

text \<open>
  Claim C3: for every valid machine state, the transform that \<open>encryptChar\<close>
  computes from that state is a bijection on the 26 upper-case letters: every
  letter has an output letter, two different letters never have the same output,
  and every letter is the output of some letter.
\<close>

theorem encryptChar_bijection:
  assumes "valid_machine m"
  shows "(\<forall>c. isupper c \<longrightarrow> (\<exists>d m'. encryptChar m c = Inr (d, m') \<and> isupper d)) \<and>
         (\<forall>c1 c2 d m1 m2. isupper c1 \<and> isupper c2 \<and> encryptChar m c1 = Inr (d, m1) \<and>
             encryptChar m c2 = Inr (d, m2) \<longrightarrow> c1 = c2) \<and>
         (\<forall>d. isupper d \<longrightarrow> (\<exists>c m'. isupper c \<and> encryptChar m c = Inr (d, m')))"
proof -
  define f where "f c = (case encryptChar m c of Inr (d, m') \<Rightarrow> d | Inl e \<Rightarrow> c)" for c
  define U where "U = {c. isupper c}"
  have total: "\<exists>d m'. encryptChar m c = Inr (d, m') \<and> isupper d" if "isupper c" for c
    using encryptChar_valid [OF assms isupper_isalpha [OF that]] by blast
  have inj: "c1 = c2"
    if "isupper c1" "isupper c2" "encryptChar m c1 = Inr (d, m1)" "encryptChar m c2 = Inr (d, m2)"
    for c1 c2 d m1 m2
    using encryptChar_inj [OF assms isupper_isalpha [OF that(1)] isupper_isalpha [OF that(2)]
        that(3,4)] that(1,2)
    by (rule charToIndex_inj_upper [rotated 2])
  have fU: "f ` U \<subseteq> U"
    using total by (fastforce simp add: f_def U_def)
  have "inj_on f U"
  proof (rule inj_onI)
    fix c1 c2
    assume c: "c1 \<in> U" "c2 \<in> U" "f c1 = f c2"
    obtain d1 n1 where 1: "encryptChar m c1 = Inr (d1, n1)"
      using total c(1) unfolding U_def by blast
    obtain d2 n2 where 2: "encryptChar m c2 = Inr (d2, n2)"
      using total c(2) unfolding U_def by blast
    have "d1 = d2"
      using c(3) 1 2 by (simp add: f_def)
    then show "c1 = c2"
      using inj [of c1 c2 d1 n1 n2] c(1,2) 1 2 by (simp add: U_def)
  qed
  moreover have "finite U"
    by simp
  ultimately have "f ` U = U"
    using fU by (intro endo_inj_surj)
  have surj: "\<exists>c m'. isupper c \<and> encryptChar m c = Inr (d, m')" if "isupper d" for d
  proof -
    have "d \<in> f ` U"
      using that \<open>f ` U = U\<close> by (simp add: U_def)
    then obtain c where c: "isupper c" "d = f c"
      unfolding U_def by blast
    obtain d' m' where "encryptChar m c = Inr (d', m')"
      using total c(1) by blast
    then show ?thesis
      using c by (auto simp add: f_def)
  qed
  show ?thesis
    using total inj surj by blast
qed

section \<open>Whole messages\<close>

lemma encrypt_loop_acc:
  "encrypt_loop m msg acc =
     (case encrypt_loop m msg [] of
        Inl e \<Rightarrow> Inl e
      | Inr (out, m') \<Rightarrow> Inr (acc @ out, m'))"
proof (induction msg arbitrary: m acc)
  case Nil
  then show ?case by simp
next
  case (Cons c cs)
  have 1: "encrypt_loop n cs (acc @ [x]) =
     (case encrypt_loop n cs [] of Inl e \<Rightarrow> Inl e | Inr (out, m') \<Rightarrow> Inr ((acc @ [x]) @ out, m'))"
    for n x
    by (rule Cons.IH)
  have 2: "encrypt_loop n cs [x] =
     (case encrypt_loop n cs [] of Inl e \<Rightarrow> Inl e | Inr (out, m') \<Rightarrow> Inr ([x] @ out, m'))"
    for n x
    by (rule Cons.IH)
  show ?case
    by (simp add: 1 2 split: sum.splits prod.splits)
qed

lemma encrypt_Nil: "encrypt m [] = Inr ([], m)"
  by (simp add: encrypt_def)

lemma encrypt_Cons:
  "encrypt m (c # cs) =
     (if isalpha c then
        (case encryptChar m c of
           Inl e \<Rightarrow> Inl e
         | Inr (d, m1) \<Rightarrow>
             (case encrypt m1 cs of Inl e \<Rightarrow> Inl e | Inr (out, m2) \<Rightarrow> Inr (d # out, m2)))
      else (case encrypt m cs of Inl e \<Rightarrow> Inl e | Inr (out, m2) \<Rightarrow> Inr (c # out, m2)))"
proof -
  have 2: "encrypt_loop n cs [x] =
     (case encrypt_loop n cs [] of Inl e \<Rightarrow> Inl e | Inr (out, m') \<Rightarrow> Inr ([x] @ out, m'))"
    for n x
    by (rule encrypt_loop_acc)
  show ?thesis
    by (simp add: encrypt_def 2 split: sum.splits prod.splits)
qed

lemma encrypt_append:
  "encrypt m (s1 @ s2) =
     (case encrypt m s1 of
        Inl e \<Rightarrow> Inl e
      | Inr (o1, m1) \<Rightarrow>
          (case encrypt m1 s2 of Inl e \<Rightarrow> Inl e | Inr (o2, m2) \<Rightarrow> Inr (o1 @ o2, m2)))"
proof (induction s1 arbitrary: m)
  case Nil
  then show ?case
    by (simp add: encrypt_Nil split: sum.splits)
next
  case (Cons c cs)
  show ?case
    by (simp add: encrypt_Cons Cons.IH split: sum.splits prod.splits)
qed

lemma encrypt_valid:
  "valid_machine m \<Longrightarrow>
   \<exists>out m'. encrypt m s = Inr (out, m') \<and> valid_machine m' \<and>
     list_all2 (\<lambda>c d. if isalpha c then isupper d else d = c) s out \<and>
     rotateRotors_times (length (filter isalpha s)) m = Inr m' \<and>
     plugboard m' = plugboard m \<and> reflector m' = reflector m"
proof (induction s arbitrary: m)
  case Nil
  then show ?case
    by (simp add: encrypt_Nil)
next
  case (Cons c cs)
  show ?case
  proof (cases "isalpha c")
    case True
    obtain d m1 where d: "encryptChar m c = Inr (d, m1)" "isupper d"
      and m1: "rotateRotors m = Inr m1" "valid_machine m1"
      using encryptChar_valid [OF Cons.prems True] by blast
    have same: "plugboard m1 = plugboard m" "reflector m1 = reflector m"
      using rotateRotors_valid [OF Cons.prems] m1(1) by auto
    obtain out m' where "encrypt m1 cs = Inr (out, m')" "valid_machine m'"
      "list_all2 (\<lambda>c d. if isalpha c then isupper d else d = c) cs out"
      "rotateRotors_times (length (filter isalpha cs)) m1 = Inr m'"
      "plugboard m' = plugboard m1" "reflector m' = reflector m1"
      using Cons.IH [OF m1(2)] by blast
    then show ?thesis
      using True d m1(1) same by (simp add: encrypt_Cons)
  next
    case False
    obtain out m' where "encrypt m cs = Inr (out, m')" "valid_machine m'"
      "list_all2 (\<lambda>c d. if isalpha c then isupper d else d = c) cs out"
      "rotateRotors_times (length (filter isalpha cs)) m = Inr m'"
      "plugboard m' = plugboard m" "reflector m' = reflector m"
      using Cons.IH [OF Cons.prems] by blast
    then show ?thesis
      using False by (simp add: encrypt_Cons)
  qed
qed

text \<open>
  Claim C6: \<open>encrypt\<close> copies a character that is not alphabetic to the output and
  passes the machine on unchanged (rotors, reflector and plugboard as they were),
  and replaces an alphabetic character by the result of \<open>encryptChar\<close>, in sequence
  and with the machine that the characters before it left.  On a valid machine
  every alphabetic character becomes an upper-case letter, every other character
  is kept, and the machine after the message is the machine before it with the
  stepping procedure run once per alphabetic character.
\<close>

theorem encrypt_passthrough:
  "(\<not> isalpha c \<longrightarrow> encrypt m [c] = Inr ([c], m)) \<and>
   (\<not> isalpha c \<longrightarrow>
      encrypt m (s1 @ c # s2) =
        (case encrypt m s1 of
           Inl e \<Rightarrow> Inl e
         | Inr (o1, m1) \<Rightarrow>
             (case encrypt m1 s2 of
                Inl e \<Rightarrow> Inl e
              | Inr (o2, m2) \<Rightarrow> Inr (o1 @ c # o2, m2)))) \<and>
   (isalpha c \<longrightarrow>
      encrypt m (s1 @ c # s2) =
        (case encrypt m s1 of
           Inl e \<Rightarrow> Inl e
         | Inr (o1, m1) \<Rightarrow>
             (case encryptChar m1 c of
                Inl e \<Rightarrow> Inl e
              | Inr (d, m2) \<Rightarrow>
                  (case encrypt m2 s2 of
                     Inl e \<Rightarrow> Inl e
                   | Inr (o2, m3) \<Rightarrow> Inr (o1 @ d # o2, m3))))) \<and>
   (valid_machine m \<longrightarrow>
      (\<exists>out m'. encrypt m s = Inr (out, m') \<and>
         list_all2 (\<lambda>c d. if isalpha c then isupper d else d = c) s out \<and>
         rotateRotors_times (length (filter isalpha s)) m = Inr m' \<and>
         plugboard m' = plugboard m \<and> reflector m' = reflector m))"
proof (intro conjI impI)
  assume "\<not> isalpha c"
  then show "encrypt m [c] = Inr ([c], m)"
    by (simp add: encrypt_Cons encrypt_Nil)
next
  assume "\<not> isalpha c"
  then show "encrypt m (s1 @ c # s2) =
        (case encrypt m s1 of
           Inl e \<Rightarrow> Inl e
         | Inr (o1, m1) \<Rightarrow>
             (case encrypt m1 s2 of
                Inl e \<Rightarrow> Inl e
              | Inr (o2, m2) \<Rightarrow> Inr (o1 @ c # o2, m2)))"
    by (simp add: encrypt_append encrypt_Cons split: sum.splits prod.splits)
next
  assume "isalpha c"
  then show "encrypt m (s1 @ c # s2) =
        (case encrypt m s1 of
           Inl e \<Rightarrow> Inl e
         | Inr (o1, m1) \<Rightarrow>
             (case encryptChar m1 c of
                Inl e \<Rightarrow> Inl e
              | Inr (d, m2) \<Rightarrow>
                  (case encrypt m2 s2 of
                     Inl e \<Rightarrow> Inl e
                   | Inr (o2, m3) \<Rightarrow> Inr (o1 @ d # o2, m3))))"
    by (simp add: encrypt_append encrypt_Cons split: sum.splits prod.splits)
next
  assume "valid_machine m"
  then show "\<exists>out m'. encrypt m s = Inr (out, m') \<and>
         list_all2 (\<lambda>c d. if isalpha c then isupper d else d = c) s out \<and>
         rotateRotors_times (length (filter isalpha s)) m = Inr m' \<and>
         plugboard m' = plugboard m \<and> reflector m' = reflector m"
    using encrypt_valid [of m s] by blast
qed

section \<open>The machines of \<^verbatim>\<open>main\<close>\<close>

lemma valid_wiring_rotorII: "valid_wiring ''AJDKSIRUXBLHWTMCQGZNPYFVOE''"
  by (simp add: valid_wiring_def isalpha_def charToIndex_eq)

lemma valid_wiring_rotorIII: "valid_wiring ''BDFHJLCPRTXVZNYEIWGAKMUSQO''"
  by (simp add: valid_wiring_def isalpha_def charToIndex_eq)

lemma valid_wiring_reflectorB: "valid_wiring ''YRUHQSLDPXNGOKMIEBFZCWVJAT''"
  by (simp add: valid_wiring_def isalpha_def charToIndex_eq)

lemma factory_rotors:
  "createRotorI 0 0 = Inr rotorI" "createRotorII 0 0 = Inr rotorII"
  "createRotorIII 0 0 = Inr rotorIII" "createReflectorB = Inr reflectorB"
  by code_simp+

lemma reverse_wirings:
  "buildReverseWiring ''EKMFLGDQVZNTOWYHXUSPAIBRCJ'' = Inr ''UWYGADFPVZBECKMTHXSLRINQOJ''"
  "buildReverseWiring ''AJDKSIRUXBLHWTMCQGZNPYFVOE'' = Inr ''AJPCZWRLFBDKOTYUQGENHXMIVS''"
  "buildReverseWiring ''BDFHJLCPRTXVZNYEIWGAKMUSQO'' = Inr ''TAGBPCSDQEUFVNZHYIXJWLRKOM''"
  by code_simp+

lemma valid_enigma_at:
  assumes "0 \<le> l" "l < 26" "0 \<le> mid" "mid < 26" "0 \<le> r" "r < 26"
  shows "valid_machine (enigma_at l mid r)"
  using assms
  by (simp add: valid_machine_def enigma_at_def valid_rotor_def rotorI_def rotorII_def
      rotorIII_def reflectorB_def valid_wiring_rotorI valid_wiring_rotorII valid_wiring_rotorIII
      valid_wiring_reflectorB reverse_wirings valid_plugboard_def Plugboard_new_def)

lemma machine_of_main:
  "EnigmaMachine_new [rotorI, rotorII, rotorIII] reflectorB = Inr (enigma_at 0 0 0)"
  by (simp add: EnigmaMachine_new_def enigma_at_def rotorI_def rotorII_def rotorIII_def)

lemma valid_machine_main: "valid_machine (enigma_at 0 0 0)"
  by (rule valid_enigma_at) simp_all

text \<open>The bijection of claim C3 at the first machine of \<^verbatim>\<open>main\<close>.\<close>

theorem encryptChar_bijection_witness:
  "(\<exists>d m'. encryptChar (enigma_at 0 0 0) CHR ''A'' = Inr (d, m') \<and> isupper d) \<and>
   (\<exists>c m'. isupper c \<and> encryptChar (enigma_at 0 0 0) c = Inr (CHR ''A'', m'))"
proof -
  have "isupper CHR ''A''"
    by (simp add: isupper_def)
  then show ?thesis
    using encryptChar_bijection [OF valid_machine_main] by blast
qed

text \<open>Claim C6 at the first machine of \<^verbatim>\<open>main\<close> and the message \<open>Hi, U!\<close>.\<close>

theorem encrypt_passthrough_witness:
  "encrypt (enigma_at 0 0 0) '','' = Inr ('','', enigma_at 0 0 0) \<and>
   (\<exists>out m'. encrypt (enigma_at 0 0 0) ''Hi, U!'' = Inr (out, m') \<and>
      list_all2 (\<lambda>c d. if isalpha c then isupper d else d = c) ''Hi, U!'' out \<and>
      rotateRotors_times 3 (enigma_at 0 0 0) = Inr m')"
proof -
  have n: "\<not> isalpha CHR '',''"
    by (simp add: isalpha_def)
  have l: "length (filter isalpha ''Hi, U!'') = 3"
    by (simp add: isalpha_def)
  note t = encrypt_passthrough [of "CHR '',''" "enigma_at 0 0 0" "[]" "[]" "''Hi, U!''"]
  have a: "encrypt (enigma_at 0 0 0) '','' = Inr ('','', enigma_at 0 0 0)"
    using t n by blast
  have "\<exists>out m'. encrypt (enigma_at 0 0 0) ''Hi, U!'' = Inr (out, m') \<and>
      list_all2 (\<lambda>c d. if isalpha c then isupper d else d = c) ''Hi, U!'' out \<and>
      rotateRotors_times (length (filter isalpha ''Hi, U!'')) (enigma_at 0 0 0) = Inr m'"
    using t valid_machine_main by blast
  then show ?thesis
    unfolding l using a by blast
qed

section \<open>Construction errors and total encryption\<close>

lemma Rotor_new_valid:
  assumes "valid_wiring w"
  shows "\<exists>r. Rotor_new w notch n = Inr r \<and> valid_rotor r"
proof -
  obtain rw where "buildReverseWiring w = Inr rw"
    using buildReverseWiring_inverse [OF assms] by blast
  moreover have "length w = 26"
    using assms by (simp add: valid_wiring_def)
  ultimately show ?thesis
    using assms
    by (simp add: Rotor_new_def EnigmaComponent_new_def ALPHABET_SIZE_def valid_rotor_def)
qed

lemma valid_machine_set:
  assumes "valid_machine m" "0 \<le> l" "0 \<le> mid" "0 \<le> r"
  shows "\<exists>m1 m2. setRotorPositions m l mid r = Inr m1 \<and> valid_machine m1 \<and>
           setRingSettings m l mid r = Inr m2 \<and> valid_machine m2"
proof -
  obtain a b c where rs: "rotors m = [a, b, c]"
    using assms(1) length_three unfolding valid_machine_def by blast
  have v: "valid_rotor a" "valid_rotor b" "valid_rotor c"
    using assms(1) rs by (simp_all add: valid_machine_def)
  have p: "valid_rotor (setPosition x k) \<and> valid_rotor (setRingSetting x k)"
    if "valid_rotor x" "0 \<le> k" for x k
    using that
    by (simp add: valid_rotor_def setPosition_def setRingSetting_def ALPHABET_SIZE_def c_rem_nonneg)
  show ?thesis
    using assms rs v p
    by (simp add: setRotorPositions_def setRingSettings_def Let_def valid_machine_def)
qed

lemma valid_plugboard_connect:
  assumes "valid_plugboard pb" "isalpha a" "isalpha b" "connect pb a b = (None, pb')"
  shows "valid_plugboard pb'"
proof -
  have f: "fst (connect pb a b) = None" and s: "pb' = snd (connect pb a b)"
    using assms(4) by simp_all
  have free: "connections pb (toupper a) = None" "connections pb (toupper b) = None"
    using f connect_throws_iff [of pb a b] by auto
  have c: "connections pb' = ((connections pb)(toupper a \<mapsto> toupper b))(toupper b \<mapsto> toupper a)"
    using f s by (simp add: connect_ok_connections)
  have u: "isupper (toupper a)" "isupper (toupper b)"
    using assms(2,3) by (simp_all add: isupper_toupper)
  show ?thesis
    unfolding valid_plugboard_def
  proof (intro allI impI)
    fix k v
    assume kv: "connections pb' k = Some v"
    show "isupper k \<and> isupper v \<and> connections pb' v = Some k"
    proof (cases "k = toupper a \<or> k = toupper b")
      case True
      then show ?thesis
        using kv c u by (auto split: if_splits)
    next
      case False
      then have old: "connections pb k = Some v"
        using kv c by simp
      then have o: "isupper k" "isupper v" "connections pb v = Some k"
        using assms(1) unfolding valid_plugboard_def by blast+
      moreover have "v \<noteq> toupper a" "v \<noteq> toupper b"
        using free o(3) by auto
      ultimately show ?thesis
        using c by simp
    qed
  qed
qed

text \<open>
  Claim C8, as the code has it: constructing a rotor or a reflector from a wiring
  whose length is not 26 throws the configuration error, and so does constructing
  the machine from other than three rotors.  Construction from wiring permutations
  succeeds and gives a valid machine, and on a valid machine \<open>encryptChar\<close> returns
  an upper-case letter for every letter and \<open>encrypt\<close> returns for every message:
  no index leaves the alphabet.  Construction checks the length of a wiring only,
  so this last part needs the wirings to be permutations of the alphabet.
\<close>

theorem construction_errors_and_total_encryption:
  "(length w \<noteq> 26 \<longrightarrow>
      Rotor_new w notch n = Inl (InvalidArgument ''Wiring must be exactly 26 characters'') \<and>
      Reflector_new w n = Inl (InvalidArgument ''Wiring must be exactly 26 characters'')) \<and>
   (length rs \<noteq> 3 \<longrightarrow>
      EnigmaMachine_new rs rf = Inl (InvalidArgument ''Enigma machine requires exactly 3 rotors'')) \<and>
   (valid_wiring w1 \<and> valid_wiring w2 \<and> valid_wiring w3 \<and> valid_wiring wr \<longrightarrow>
      (\<exists>r1 r2 r3 rf' m0. Rotor_new w1 k1 n1 = Inr r1 \<and> Rotor_new w2 k2 n2 = Inr r2 \<and>
         Rotor_new w3 k3 n3 = Inr r3 \<and> Reflector_new wr nr = Inr rf' \<and>
         EnigmaMachine_new [r1, r2, r3] rf' = Inr m0 \<and> valid_machine m0)) \<and>
   (valid_machine m \<longrightarrow>
      (\<forall>c. isalpha c \<longrightarrow>
         (\<exists>d m'. encryptChar m c = Inr (d, m') \<and> isupper d \<and> valid_machine m')) \<and>
      (\<forall>msg. \<exists>out m'. encrypt m msg = Inr (out, m') \<and> valid_machine m'))"
proof (intro conjI impI allI)
  assume "length w \<noteq> 26"
  then show "Rotor_new w notch n = Inl (InvalidArgument ''Wiring must be exactly 26 characters'')"
    and "Reflector_new w n = Inl (InvalidArgument ''Wiring must be exactly 26 characters'')"
    by (simp_all add: Rotor_new_def Reflector_new_def EnigmaComponent_new_def ALPHABET_SIZE_def)
next
  assume "length rs \<noteq> 3"
  then show "EnigmaMachine_new rs rf =
      Inl (InvalidArgument ''Enigma machine requires exactly 3 rotors'')"
    by (simp add: EnigmaMachine_new_def)
next
  assume a: "valid_wiring w1 \<and> valid_wiring w2 \<and> valid_wiring w3 \<and> valid_wiring wr"
  obtain r1 r2 r3 where r: "Rotor_new w1 k1 n1 = Inr r1" "Rotor_new w2 k2 n2 = Inr r2"
    "Rotor_new w3 k3 n3 = Inr r3" and v: "valid_rotor r1" "valid_rotor r2" "valid_rotor r3"
    using a Rotor_new_valid by metis
  have "length wr = 26"
    using a by (simp add: valid_wiring_def)
  then have "Reflector_new wr nr = Inr \<lparr>wiring = wr, name = nr, position = 0, ringSetting = 0\<rparr>"
    by (simp add: Reflector_new_def EnigmaComponent_new_def ALPHABET_SIZE_def)
  moreover have "valid_machine \<lparr>rotors = [r1, r2, r3],
      reflector = \<lparr>wiring = wr, name = nr, position = 0, ringSetting = 0\<rparr>,
      plugboard = Plugboard_new\<rparr>"
    using a v by (simp add: valid_machine_def valid_plugboard_def Plugboard_new_def)
  ultimately show "\<exists>r1 r2 r3 rf' m0. Rotor_new w1 k1 n1 = Inr r1 \<and> Rotor_new w2 k2 n2 = Inr r2 \<and>
         Rotor_new w3 k3 n3 = Inr r3 \<and> Reflector_new wr nr = Inr rf' \<and>
         EnigmaMachine_new [r1, r2, r3] rf' = Inr m0 \<and> valid_machine m0"
    using r by (simp add: EnigmaMachine_new_def)
next
  fix c
  assume "valid_machine m" "isalpha c"
  then show "\<exists>d m'. encryptChar m c = Inr (d, m') \<and> isupper d \<and> valid_machine m'"
    using encryptChar_valid [of m c] by blast
next
  fix msg
  assume "valid_machine m"
  then show "\<exists>out m'. encrypt m msg = Inr (out, m') \<and> valid_machine m'"
    using encrypt_valid [of m msg] by blast
qed

theorem construction_errors_and_total_encryption_witness:
  "Rotor_new ''ABC'' 0 ''Short'' = Inl (InvalidArgument ''Wiring must be exactly 26 characters'') \<and>
   Reflector_new ''ABC'' ''Short'' = Inl (InvalidArgument ''Wiring must be exactly 26 characters'') \<and>
   EnigmaMachine_new [rotorI, rotorII] reflectorB =
     Inl (InvalidArgument ''Enigma machine requires exactly 3 rotors'') \<and>
   (\<exists>m0. EnigmaMachine_new [rotorI, rotorII, rotorIII] reflectorB = Inr m0 \<and> valid_machine m0) \<and>
   (\<exists>d m'. encryptChar (enigma_at 0 0 0) CHR ''h'' = Inr (d, m') \<and> isupper d) \<and>
   (\<exists>out m'. encrypt (enigma_at 0 0 0) ''Hello, World!'' = Inr (out, m'))"
proof -
  note t = construction_errors_and_total_encryption
    [where w = "''ABC''" and notch = 0 and n = "''Short''" and rs = "[rotorI, rotorII]"
      and rf = reflectorB and m = "enigma_at 0 0 0"
      and ?w1.0 = "''EKMFLGDQVZNTOWYHXUSPAIBRCJ''" and ?k1.0 = 16 and ?n1.0 = "''Rotor I''"
      and ?w2.0 = "''AJDKSIRUXBLHWTMCQGZNPYFVOE''" and ?k2.0 = 4 and ?n2.0 = "''Rotor II''"
      and ?w3.0 = "''BDFHJLCPRTXVZNYEIWGAKMUSQO''" and ?k3.0 = 21 and ?n3.0 = "''Rotor III''"
      and wr = "''YRUHQSLDPXNGOKMIEBFZCWVJAT''" and nr = "''Reflector B''"]
  have new: "Rotor_new ''EKMFLGDQVZNTOWYHXUSPAIBRCJ'' 16 ''Rotor I'' = Inr rotorI"
    "Rotor_new ''AJDKSIRUXBLHWTMCQGZNPYFVOE'' 4 ''Rotor II'' = Inr rotorII"
    "Rotor_new ''BDFHJLCPRTXVZNYEIWGAKMUSQO'' 21 ''Rotor III'' = Inr rotorIII"
    "Reflector_new ''YRUHQSLDPXNGOKMIEBFZCWVJAT'' ''Reflector B'' = Inr reflectorB"
    by code_simp+
  have h: "isalpha CHR ''h''"
    by (simp add: isalpha_def)
  have 1: "Rotor_new ''ABC'' 0 ''Short'' = Inl (InvalidArgument ''Wiring must be exactly 26 characters'') \<and>
   Reflector_new ''ABC'' ''Short'' = Inl (InvalidArgument ''Wiring must be exactly 26 characters'')"
    using t by simp
  have 2: "EnigmaMachine_new [rotorI, rotorII] reflectorB =
     Inl (InvalidArgument ''Enigma machine requires exactly 3 rotors'')"
    using t by simp
  have 3: "\<exists>m0. EnigmaMachine_new [rotorI, rotorII, rotorIII] reflectorB = Inr m0 \<and> valid_machine m0"
    using t valid_wiring_rotorI valid_wiring_rotorII valid_wiring_rotorIII valid_wiring_reflectorB
    unfolding new by auto
  have 4: "\<exists>d m'. encryptChar (enigma_at 0 0 0) CHR ''h'' = Inr (d, m') \<and> isupper d"
    using t valid_machine_main h by blast
  have 5: "\<exists>out m'. encrypt (enigma_at 0 0 0) ''Hello, World!'' = Inr (out, m')"
    using t valid_machine_main by blast
  show ?thesis
    using 1 2 3 4 5 by blast
qed

text \<open>
  A machine that every constructor accepts, and on which \<open>encryptChar\<close> leaves the
  alphabet: the factory rotors with a reflector of 26 spaces.  The reflector
  returns a space, whose index is \<open>-33\<close>, and the left rotor reads its reverse
  wiring at index \<open>-7\<close>.
\<close>

theorem encryptChar_out_of_bounds_counterexample:
  "createRotorI 0 0 = Inr rotorI \<and> createRotorII 0 0 = Inr rotorII \<and>
   createRotorIII 0 0 = Inr rotorIII \<and>
   Reflector_new ''                          '' ''Blank'' = Inr blank_reflector \<and>
   EnigmaMachine_new [rotorI, rotorII, rotorIII] blank_reflector =
     Inr ((enigma_at 0 0 0)\<lparr>reflector := blank_reflector\<rparr>) \<and>
   applyOffset rotorI (charToIndex CHR '' '') False = - 7 \<and>
   encryptChar ((enigma_at 0 0 0)\<lparr>reflector := blank_reflector\<rparr>) CHR ''A'' = Inl OutOfBounds"
proof -
  have "Reflector_new ''                          '' ''Blank'' = Inr blank_reflector"
    by code_simp
  moreover have "EnigmaMachine_new [rotorI, rotorII, rotorIII] blank_reflector =
     Inr ((enigma_at 0 0 0)\<lparr>reflector := blank_reflector\<rparr>)"
    by (simp add: EnigmaMachine_new_def enigma_at_def rotorI_def rotorII_def rotorIII_def)
  moreover have "applyOffset rotorI (charToIndex CHR '' '') False = - 7"
    by code_simp
  moreover have
    "encryptChar ((enigma_at 0 0 0)\<lparr>reflector := blank_reflector\<rparr>) CHR ''A'' = Inl OutOfBounds"
    by code_simp
  ultimately show ?thesis
    using factory_rotors by blast
qed

section \<open>Encrypting twice\<close>

text \<open>
  Claim C1 at the machine of \<^verbatim>\<open>main\<close> (rotors I, II, III, reflector B, ring settings
  0, empty plugboard, positions 0, 0, 0): the machine is valid and its reflector is
  its own inverse (it maps its own wiring back to the alphabet); \<open>encrypt\<close> turns
  \<open>A\<close> into \<open>C\<close> and leaves a machine that \<open>setRotorPositions\<close> resets to the
  starting one; from there \<open>encrypt\<close> turns \<open>C\<close> into \<open>X\<close>, not back into \<open>A\<close>.
  The backward pass of a rotor does not undo its forward pass: rotor III at
  position 1 sends \<open>A\<close> forward to \<open>C\<close> and \<open>C\<close> backward to \<open>B\<close>.  With the
  plugboard and the positions of \<^verbatim>\<open>main\<close>, \<open>HELLOENIGMA\<close> becomes
  \<open>ONUQOHBFHPK\<close>, which becomes \<open>IWWXOCHHSOR\<close>.
\<close>

theorem encrypt_twice_not_identity:
  "valid_machine (enigma_at 0 0 0) \<and>
   map (Reflector_process reflectorB) (wiring reflectorB) =
     map Inr ''ABCDEFGHIJKLMNOPQRSTUVWXYZ'' \<and>
   Rotor_process (rotorIII\<lparr>position := 1\<rparr>) CHR ''A'' True = Inr CHR ''C'' \<and>
   Rotor_process (rotorIII\<lparr>position := 1\<rparr>) CHR ''C'' False = Inr CHR ''B'' \<and>
   encrypt (enigma_at 0 0 0) ''A'' = Inr (''C'', enigma_at 0 0 1) \<and>
   setRotorPositions (enigma_at 0 0 1) 0 0 0 = Inr (enigma_at 0 0 0) \<and>
   map_sum id fst (encrypt (enigma_at 0 0 0) ''C'') = Inr ''X'' \<and>
   map_sum id fst (encrypt (snd (setPlugboardConnections (enigma_at 0 1 2)
      [(CHR ''A'', CHR ''B''), (CHR ''C'', CHR ''D''), (CHR ''E'', CHR ''F'')])) ''HELLOENIGMA'') =
     Inr ''ONUQOHBFHPK'' \<and>
   map_sum id fst (encrypt (snd (setPlugboardConnections (enigma_at 0 1 2)
      [(CHR ''A'', CHR ''B''), (CHR ''C'', CHR ''D''), (CHR ''E'', CHR ''F'')])) ''ONUQOHBFHPK'') =
     Inr ''IWWXOCHHSOR''"
proof -
  have rot: "rotateRotors (enigma_at 0 0 0) = Inr (enigma_at 0 0 1)"
    by (simp add: rotateRotors_def enigma_at_def Let_def isAtNotch_def rotate_c_def
        rotorI_def rotorII_def rotorIII_def ALPHABET_SIZE_def c_rem_def)
  obtain out m1 where e: "encrypt (enigma_at 0 0 0) ''A'' = Inr (out, m1)"
    and "rotateRotors_times (length (filter isalpha ''A'')) (enigma_at 0 0 0) = Inr m1"
    using encrypt_valid [OF valid_machine_main, of "''A''"] by blast
  then have m1: "m1 = enigma_at 0 0 1"
    by (simp add: isalpha_def rot)
  have "map_sum id fst (encrypt (enigma_at 0 0 0) ''A'') = Inr ''C''"
    by code_simp
  then have out: "out = ''C''"
    using e by simp
  have reset: "setRotorPositions (enigma_at 0 0 1) 0 0 0 = Inr (enigma_at 0 0 0)"
    by (simp add: setRotorPositions_def enigma_at_def Let_def setPosition_def c_rem_def
        ALPHABET_SIZE_def)
  have 2: "map_sum id fst (encrypt (enigma_at 0 0 0) ''C'') = Inr ''X''"
    by code_simp
  have 3: "map_sum id fst (encrypt (snd (setPlugboardConnections (enigma_at 0 1 2)
      [(CHR ''A'', CHR ''B''), (CHR ''C'', CHR ''D''), (CHR ''E'', CHR ''F'')])) ''HELLOENIGMA'') =
     Inr ''ONUQOHBFHPK''"
    by code_simp
  have 4: "map_sum id fst (encrypt (snd (setPlugboardConnections (enigma_at 0 1 2)
      [(CHR ''A'', CHR ''B''), (CHR ''C'', CHR ''D''), (CHR ''E'', CHR ''F'')])) ''ONUQOHBFHPK'') =
     Inr ''IWWXOCHHSOR''"
    by code_simp
  have 5: "map (Reflector_process reflectorB) (wiring reflectorB) =
     map Inr ''ABCDEFGHIJKLMNOPQRSTUVWXYZ''"
    by code_simp
  have 1: "encrypt (enigma_at 0 0 0) ''A'' = Inr (''C'', enigma_at 0 0 1)"
    using e m1 out by simp
  have 6: "Rotor_process (rotorIII\<lparr>position := 1\<rparr>) CHR ''A'' True = Inr CHR ''C''"
    "Rotor_process (rotorIII\<lparr>position := 1\<rparr>) CHR ''C'' False = Inr CHR ''B''"
    by code_simp+
  show ?thesis
    using valid_machine_main 1 reset 2 3 4 5 6 by blast
qed

end
